theory Spec2Isabelle
  imports Main
begin

section \<open>Errors, element types and raw storage\<close>

text \<open>
  The C++ sources \<^verbatim>\<open>raw_memory.h\<close> and \<^verbatim>\<open>vector.h\<close> define the class templates
  \<^verbatim>\<open>RawMemory<T>\<close> and \<^verbatim>\<open>Vector<T>\<close>. An exception leaving a member function is an
  error value returned together with the state the object is left in.

  \<^item> \<open>AllocationFailure\<close>: \<^verbatim>\<open>operator new\<close> throws.
  \<^item> \<open>ElementConstructionFailure\<close>: a constructor or an assignment operator of the element
    type throws.
  \<^item> \<open>AssertionFailure\<close>: one of the \<^verbatim>\<open>assert\<close>s of the source fails.
  \<^item> \<open>UndefinedBehaviour\<close>: the source reads a slot that holds no object, or is called
    outside its precondition (a position outside the vector, \<^verbatim>\<open>PopBack\<close> on an empty
    vector). The source has no check there; the model stops with this value instead of
    computing with an unspecified one.

  Values of type \<^verbatim>\<open>size_t\<close> and \<^verbatim>\<open>ptrdiff_t\<close> are natural numbers: a buffer of \<open>2 ^ 63\<close>
  elements cannot be allocated, so \<^verbatim>\<open>size_ * 2\<close> and \<^verbatim>\<open>++size_\<close> do not wrap around in 64
  bits. The one narrower integer of the source, the parameter \<^verbatim>\<open>int number_of_elements\<close>,
  is modelled with its width (see \<open>to_int\<close> below). The byte count \<^verbatim>\<open>n * sizeof(T)\<close> that
  \<^verbatim>\<open>Allocate\<close> passes to \<^verbatim>\<open>operator new\<close> is not modelled with its width: a request is
  either refused or answered with \<open>n\<close> slots. A request so large that the byte count
  wraps around, for which the source gets a block shorter than the capacity it records, is
  outside the model.
\<close>

datatype error = AllocationFailure | ElementConstructionFailure | AssertionFailure | UndefinedBehaviour

text \<open>
  The template parameter \<^verbatim>\<open>T\<close>. Values of the element type are values of \<open>'a\<close>; each
  special member function is a function of the values of its operands and returns \<open>None\<close>
  when it throws. A move returns the new value of its target together with the value left
  in the moved-from source. \<open>can_allocate n\<close> says whether \<^verbatim>\<open>operator new(n * sizeof(T))\<close>
  returns a block; the two traits are the ones \<^verbatim>\<open>UninitializedMoveOrCopy\<close> asks for.
\<close>

record 'a element_type =
  value_ctor :: "'a option"
  copy_ctor :: "'a \<Rightarrow> 'a option"
  move_ctor :: "'a \<Rightarrow> ('a \<times> 'a) option"
  copy_asgn :: "'a \<Rightarrow> 'a \<Rightarrow> 'a option"
  move_asgn :: "'a \<Rightarrow> 'a \<Rightarrow> ('a \<times> 'a) option"
  is_nothrow_move_constructible :: bool
  is_copy_constructible :: bool
  can_allocate :: "nat \<Rightarrow> bool"

text \<open>
  A block of storage is the list of its slots: \<open>None\<close> is raw memory, \<open>Some x\<close> a live
  object of value \<open>x\<close>. \<^verbatim>\<open>RawMemory\<close> owns its block exclusively, so the field
  \<^verbatim>\<open>buffer_\<close> holds the block itself; \<^verbatim>\<open>nullptr\<close> is the empty block. The members
  \<^verbatim>\<open>buffer_\<close>, \<^verbatim>\<open>capacity_\<close>, \<^verbatim>\<open>data_\<close> and \<^verbatim>\<open>size_\<close> are the fields \<open>buffer_m\<close>,
  \<open>capacity_m\<close>, \<open>data_m\<close> and \<open>size_m\<close>: a field name cannot end in an underscore.
\<close>

type_synonym 'a block = "'a option list"

record 'a RawMemory =
  buffer_m :: "'a block"
  capacity_m :: nat

record 'a Vector =
  data_m :: "'a RawMemory"
  size_m :: nat

type_synonym ('r, 's) outcome = "(error + 'r) \<times> 's"

definition slot_at :: "'a block \<Rightarrow> nat \<Rightarrow> 'a option" where
  "slot_at b i = (if i < length b then b ! i else None)"

subsection \<open>RawMemory\<close>

definition Allocate :: "'a element_type \<Rightarrow> nat \<Rightarrow> error + 'a block" where
  "Allocate T n =
     (if n \<noteq> 0
      then (if can_allocate T n then Inr (replicate n None) else Inl AllocationFailure)
      else Inr [])"

definition RawMemory_default :: "'a RawMemory" where
  "RawMemory_default = \<lparr>buffer_m = [], capacity_m = 0\<rparr>"

definition RawMemory_sized :: "'a element_type \<Rightarrow> nat \<Rightarrow> error + 'a RawMemory" where
  "RawMemory_sized T capacity =
     (case Allocate T capacity of
        Inl e \<Rightarrow> Inl e
      | Inr b \<Rightarrow> Inr \<lparr>buffer_m = b, capacity_m = capacity\<rparr>)"

definition RawMemory_Swap :: "'a RawMemory \<Rightarrow> 'a RawMemory \<Rightarrow> 'a RawMemory \<times> 'a RawMemory" where
  "RawMemory_Swap this other =
     (\<lparr>buffer_m = buffer_m other, capacity_m = capacity_m other\<rparr>,
      \<lparr>buffer_m = buffer_m this, capacity_m = capacity_m this\<rparr>)"

text \<open>The move constructor: the new object starts as the default one and swaps with \<open>other\<close>.\<close>

definition RawMemory_move_ctor :: "'a RawMemory \<Rightarrow> 'a RawMemory \<times> 'a RawMemory" where
  "RawMemory_move_ctor other = RawMemory_Swap RawMemory_default other"

text \<open>
  Move assignment. \<open>same\<close> is the outcome of the source's test \<^verbatim>\<open>this != &rhs\<close> (the two
  operands are one object); the result is the pair of \<^verbatim>\<open>*this\<close> and \<^verbatim>\<open>rhs\<close> afterwards.
  \<^verbatim>\<open>Deallocate\<close> releases the old block and touches no slot.
\<close>

definition RawMemory_move_assign ::
  "bool \<Rightarrow> 'a RawMemory \<Rightarrow> 'a RawMemory \<Rightarrow> 'a RawMemory \<times> 'a RawMemory" where
  "RawMemory_move_assign same this rhs =
     (if \<not> same
      then (\<lparr>buffer_m = buffer_m rhs, capacity_m = capacity_m rhs\<rparr>, \<lparr>buffer_m = [], capacity_m = 0\<rparr>)
      else (this, rhs))"

definition RawMemory_Capacity :: "'a RawMemory \<Rightarrow> nat" where
  "RawMemory_Capacity m = capacity_m m"

section \<open>The standard algorithms the vector calls\<close>

text \<open>
  Pointers into a block are offsets. Each algorithm is the loop of the standard library
  over the slots; where the library takes two ranges, the model takes the block of each,
  and the algorithms the source applies inside one buffer take that one block. Reading a
  slot that holds no object stops with \<open>UndefinedBehaviour\<close>. Destructors do not throw
  and leave the slot raw.
\<close>

fun destroy_n :: "'a block \<Rightarrow> nat \<Rightarrow> nat \<Rightarrow> 'a block" where
  "destroy_n b p 0 = b"
| "destroy_n b p (Suc n) = destroy_n (b[p := None]) (Suc p) n"

text \<open>
  \<^verbatim>\<open>std::uninitialized_value_construct_n(first, n)\<close>: constructs at \<open>cur\<close>; when a
  constructor throws, the objects built so far, \<open>[first, cur)\<close>, are destroyed.
\<close>

fun value_construct_loop ::
  "'a element_type \<Rightarrow> 'a block \<Rightarrow> nat \<Rightarrow> nat \<Rightarrow> nat \<Rightarrow> (unit, 'a block) outcome" where
  "value_construct_loop T b first cur 0 = (Inr (), b)"
| "value_construct_loop T b first cur (Suc n) =
     (case value_ctor T of
        None \<Rightarrow> (Inl ElementConstructionFailure, destroy_n b first (cur - first))
      | Some x \<Rightarrow> value_construct_loop T (b[cur := Some x]) first (Suc cur) n)"

definition uninitialized_value_construct_n ::
  "'a element_type \<Rightarrow> 'a block \<Rightarrow> nat \<Rightarrow> nat \<Rightarrow> (unit, 'a block) outcome" where
  "uninitialized_value_construct_n T b first n = value_construct_loop T b first first n"

text \<open>
  \<^verbatim>\<open>std::uninitialized_copy_n(from, n, to)\<close> from the block \<open>src\<close> into the block \<open>dst\<close>;
  the result carries \<open>dst\<close> afterwards, the source range is read only.
\<close>

fun uninitialized_copy_loop ::
  "'a element_type \<Rightarrow> 'a block \<Rightarrow> nat \<Rightarrow> 'a block \<Rightarrow> nat \<Rightarrow> nat \<Rightarrow> nat
   \<Rightarrow> (unit, 'a block) outcome" where
  "uninitialized_copy_loop T src from dst first cur 0 = (Inr (), dst)"
| "uninitialized_copy_loop T src from dst first cur (Suc n) =
     (case slot_at src from of
        None \<Rightarrow> (Inl UndefinedBehaviour, dst)
      | Some x \<Rightarrow>
          (case copy_ctor T x of
             None \<Rightarrow> (Inl ElementConstructionFailure, destroy_n dst first (cur - first))
           | Some y \<Rightarrow> uninitialized_copy_loop T src (Suc from) (dst[cur := Some y]) first (Suc cur) n))"

definition uninitialized_copy_n ::
  "'a element_type \<Rightarrow> 'a block \<Rightarrow> nat \<Rightarrow> nat \<Rightarrow> 'a block \<Rightarrow> nat \<Rightarrow> (unit, 'a block) outcome" where
  "uninitialized_copy_n T src from n dst to = uninitialized_copy_loop T src from dst to to n"

text \<open>
  \<^verbatim>\<open>std::uninitialized_move_n(from, n, to)\<close> between two blocks; the result carries both
  blocks, the source one with the moved-from objects.
\<close>

fun uninitialized_move_loop ::
  "'a element_type \<Rightarrow> 'a block \<Rightarrow> nat \<Rightarrow> 'a block \<Rightarrow> nat \<Rightarrow> nat \<Rightarrow> nat
   \<Rightarrow> (unit, 'a block \<times> 'a block) outcome" where
  "uninitialized_move_loop T src from dst first cur 0 = (Inr (), src, dst)"
| "uninitialized_move_loop T src from dst first cur (Suc n) =
     (case slot_at src from of
        None \<Rightarrow> (Inl UndefinedBehaviour, src, dst)
      | Some x \<Rightarrow>
          (case move_ctor T x of
             None \<Rightarrow> (Inl ElementConstructionFailure, src, destroy_n dst first (cur - first))
           | Some (y, r) \<Rightarrow>
               uninitialized_move_loop T (src[from := Some r]) (Suc from)
                 (dst[cur := Some y]) first (Suc cur) n))"

definition uninitialized_move_n ::
  "'a element_type \<Rightarrow> 'a block \<Rightarrow> nat \<Rightarrow> nat \<Rightarrow> 'a block \<Rightarrow> nat
   \<Rightarrow> (unit, 'a block \<times> 'a block) outcome" where
  "uninitialized_move_n T src from n dst to = uninitialized_move_loop T src from dst to to n"

text \<open>The same algorithm with both ranges in one block.\<close>

fun uninitialized_move_within_loop ::
  "'a element_type \<Rightarrow> 'a block \<Rightarrow> nat \<Rightarrow> nat \<Rightarrow> nat \<Rightarrow> nat \<Rightarrow> (unit, 'a block) outcome" where
  "uninitialized_move_within_loop T b from first cur 0 = (Inr (), b)"
| "uninitialized_move_within_loop T b from first cur (Suc n) =
     (case slot_at b from of
        None \<Rightarrow> (Inl UndefinedBehaviour, b)
      | Some x \<Rightarrow>
          (case move_ctor T x of
             None \<Rightarrow> (Inl ElementConstructionFailure, destroy_n b first (cur - first))
           | Some (y, r) \<Rightarrow>
               uninitialized_move_within_loop T ((b[from := Some r])[cur := Some y]) (Suc from)
                 first (Suc cur) n))"

definition uninitialized_move_n_within ::
  "'a element_type \<Rightarrow> 'a block \<Rightarrow> nat \<Rightarrow> nat \<Rightarrow> nat \<Rightarrow> (unit, 'a block) outcome" where
  "uninitialized_move_n_within T b from n to = uninitialized_move_within_loop T b from to to n"

text \<open>
  \<^verbatim>\<open>std::copy_n(from, n, to)\<close>: copy assignment, slot by slot, from the block \<open>src\<close> onto
  live objects of the block \<open>dst\<close>.
\<close>

fun copy_n :: "'a element_type \<Rightarrow> 'a block \<Rightarrow> nat \<Rightarrow> nat \<Rightarrow> 'a block \<Rightarrow> nat
   \<Rightarrow> (unit, 'a block) outcome" where
  "copy_n T src from 0 dst to = (Inr (), dst)"
| "copy_n T src from (Suc n) dst to =
     (case slot_at src from of
        None \<Rightarrow> (Inl UndefinedBehaviour, dst)
      | Some x \<Rightarrow>
          (case slot_at dst to of
             None \<Rightarrow> (Inl UndefinedBehaviour, dst)
           | Some d \<Rightarrow>
               (case copy_asgn T d x of
                  None \<Rightarrow> (Inl ElementConstructionFailure, dst)
                | Some y \<Rightarrow> copy_n T src (Suc from) n (dst[to := Some y]) (Suc to))))"

text \<open>\<^verbatim>\<open>*d = std::move(*s)\<close> on two slots of one block.\<close>

definition move_assign_slot :: "'a element_type \<Rightarrow> 'a block \<Rightarrow> nat \<Rightarrow> nat \<Rightarrow> (unit, 'a block) outcome" where
  "move_assign_slot T b d s =
     (case slot_at b s of
        None \<Rightarrow> (Inl UndefinedBehaviour, b)
      | Some x \<Rightarrow>
          (case slot_at b d of
             None \<Rightarrow> (Inl UndefinedBehaviour, b)
           | Some old \<Rightarrow>
               (case move_asgn T old x of
                  None \<Rightarrow> (Inl ElementConstructionFailure, b)
                | Some (y, r) \<Rightarrow> (Inr (), (b[s := Some r])[d := Some y]))))"

text \<open>
  \<^verbatim>\<open>std::move(first, last, d_first)\<close> inside one block: \<open>last - first\<close> move assignments,
  front to back.
\<close>

fun move_loop :: "'a element_type \<Rightarrow> 'a block \<Rightarrow> nat \<Rightarrow> nat \<Rightarrow> nat \<Rightarrow> (unit, 'a block) outcome" where
  "move_loop T b first d_first 0 = (Inr (), b)"
| "move_loop T b first d_first (Suc n) =
     (case move_assign_slot T b d_first first of
        (Inl e, b') \<Rightarrow> (Inl e, b')
      | (Inr u, b') \<Rightarrow> move_loop T b' (Suc first) (Suc d_first) n)"

definition std_move :: "'a element_type \<Rightarrow> 'a block \<Rightarrow> nat \<Rightarrow> nat \<Rightarrow> nat \<Rightarrow> (unit, 'a block) outcome" where
  "std_move T b first last_it d_first = move_loop T b first d_first (last_it - first)"

text \<open>
  \<^verbatim>\<open>std::move_backward(first, last, d_last)\<close> inside one block: \<open>last - first\<close> move
  assignments, back to front, each after decrementing both ends.
\<close>

fun move_backward_loop :: "'a element_type \<Rightarrow> 'a block \<Rightarrow> nat \<Rightarrow> nat \<Rightarrow> nat \<Rightarrow> (unit, 'a block) outcome" where
  "move_backward_loop T b last_it d_last 0 = (Inr (), b)"
| "move_backward_loop T b last_it d_last (Suc n) =
     (case move_assign_slot T b (d_last - 1) (last_it - 1) of
        (Inl e, b') \<Rightarrow> (Inl e, b')
      | (Inr u, b') \<Rightarrow> move_backward_loop T b' (last_it - 1) (d_last - 1) n)"

definition move_backward :: "'a element_type \<Rightarrow> 'a block \<Rightarrow> nat \<Rightarrow> nat \<Rightarrow> nat \<Rightarrow> (unit, 'a block) outcome" where
  "move_backward T b first last_it d_last = move_backward_loop T b last_it d_last (last_it - first)"

section \<open>Vector\<close>

definition Size :: "'a Vector \<Rightarrow> nat" where
  "Size v = size_m v"

definition Capacity :: "'a Vector \<Rightarrow> nat" where
  "Capacity v = RawMemory_Capacity (data_m v)"

definition Vector_default :: "'a Vector" where
  "Vector_default = \<lparr>data_m = RawMemory_default, size_m = 0\<rparr>"

text \<open>
  \<^verbatim>\<open>Vector(Vector&& other)\<close>: the member \<^verbatim>\<open>data_\<close> of the new object is default-initialised
  and then move-assigned from \<^verbatim>\<open>other.data_\<close>, a different object. The result is the new
  vector and \<open>other\<close> afterwards.
\<close>

definition Vector_move_ctor :: "'a Vector \<Rightarrow> 'a Vector \<times> 'a Vector" where
  "Vector_move_ctor other =
     (case RawMemory_move_assign False RawMemory_default (data_m other) of
        (d, od) \<Rightarrow> (\<lparr>data_m = d, size_m = size_m other\<rparr>, \<lparr>data_m = od, size_m = 0\<rparr>))"

subsection \<open>Operations on two vectors that may be the same object\<close>

text \<open>
  Assignment and \<^verbatim>\<open>Swap\<close> take a second vector by reference, which may be the object
  itself. Vectors live in a store indexed by address, and each statement of the source is
  one update of the store, in the source's order.
\<close>

type_synonym 'a store = "nat \<Rightarrow> 'a Vector"

text \<open>\<^verbatim>\<open>a.data_ = std::move(b.data_)\<close> for the vectors at addresses \<open>a\<close> and \<open>b\<close>.\<close>

definition data_move_assign :: "nat \<Rightarrow> nat \<Rightarrow> 'a store \<Rightarrow> 'a store" where
  "data_move_assign a b s =
     (case RawMemory_move_assign (a = b) (data_m (s a)) (data_m (s b)) of
        (l, r) \<Rightarrow>
          (let s1 = s(b := (s b)\<lparr>data_m := r\<rparr>)
           in s1(a := (s1 a)\<lparr>data_m := l\<rparr>)))"

text \<open>
  \<^verbatim>\<open>std::swap(a.data_, b.data_)\<close>: a temporary move-constructed from \<^verbatim>\<open>a.data_\<close>, then
  \<^verbatim>\<open>a.data_ = std::move(b.data_)\<close>, then \<^verbatim>\<open>b.data_ = std::move(tmp)\<close>.
\<close>

definition swap_data :: "nat \<Rightarrow> nat \<Rightarrow> 'a store \<Rightarrow> 'a store" where
  "swap_data a b s =
     (case RawMemory_move_ctor (data_m (s a)) of
        (tmp, ad) \<Rightarrow>
          (let s1 = s(a := (s a)\<lparr>data_m := ad\<rparr>);
               s2 = data_move_assign a b s1
           in (case RawMemory_move_assign False (data_m (s2 b)) tmp of
                 (bd, tmp') \<Rightarrow> s2(b := (s2 b)\<lparr>data_m := bd\<rparr>))))"

text \<open>\<^verbatim>\<open>std::swap(a.size_, b.size_)\<close> on the integers.\<close>

definition swap_size :: "nat \<Rightarrow> nat \<Rightarrow> 'a store \<Rightarrow> 'a store" where
  "swap_size a b s =
     (let tmp = size_m (s a);
          s1 = s(a := (s a)\<lparr>size_m := size_m (s b)\<rparr>)
      in s1(b := (s1 b)\<lparr>size_m := tmp\<rparr>))"

definition Swap :: "nat \<Rightarrow> nat \<Rightarrow> 'a store \<Rightarrow> 'a store" where
  "Swap this other s = swap_size this other (swap_data this other s)"

text \<open>
  \<^verbatim>\<open>Vector& operator=(Vector&& rhs)\<close>: \<^verbatim>\<open>data_ = std::move(rhs.data_)\<close>, then
  \<^verbatim>\<open>size_ = std::exchange(rhs.size_, 0)\<close>, which first writes 0 to \<^verbatim>\<open>rhs.size_\<close> and then
  the old value to \<^verbatim>\<open>size_\<close>. (The old block of the destination is released with its
  elements in it; a released block is no part of the state.)
\<close>

definition Vector_move_assign :: "nat \<Rightarrow> nat \<Rightarrow> 'a store \<Rightarrow> 'a store" where
  "Vector_move_assign this rhs s =
     (let s1 = data_move_assign this rhs s;
          old = size_m (s1 rhs);
          s2 = s1(rhs := (s1 rhs)\<lparr>size_m := 0\<rparr>)
      in s2(this := (s2 this)\<lparr>size_m := old\<rparr>))"

section \<open>Vector: the operations on one vector\<close>

text \<open>
  A member function that modifies the vector returns its outcome (the error, or the
  returned value) paired with the vector afterwards. Iterators are offsets from
  \<^verbatim>\<open>begin()\<close>, so \<^verbatim>\<open>std::distance(cbegin(), pos)\<close> is \<open>pos\<close> and \<^verbatim>\<open>end()\<close> is \<open>size_m\<close>.
\<close>

definition with_buffer :: "'a Vector \<Rightarrow> 'a block \<Rightarrow> 'a Vector" where
  "with_buffer v b = v\<lparr>data_m := (data_m v)\<lparr>buffer_m := b\<rparr>\<rparr>"

text \<open>
  The conversion of a \<^verbatim>\<open>size_t\<close> or \<^verbatim>\<open>ptrdiff_t\<close> value to the parameter
  \<^verbatim>\<open>int number_of_elements\<close> of \<^verbatim>\<open>UninitializedMoveOrCopy\<close>: \<^verbatim>\<open>int\<close> has 32 bits, and the
  value is reduced modulo \<open>2 ^ 32\<close> into the signed range, so \<open>2 ^ 31\<close> becomes
  \<open>- 2 ^ 31\<close> and \<open>2 ^ 32\<close> becomes 0. The standard defines
  \<^verbatim>\<open>std::uninitialized_move_n\<close> and \<^verbatim>\<open>std::uninitialized_copy_n\<close> by a loop that runs while
  the count is positive, that is \<open>nat\<close> of it times.
\<close>

definition to_int :: "nat \<Rightarrow> int" where
  "to_int n = (let m = int n mod 2 ^ 32 in if m < 2 ^ 31 then m else m - 2 ^ 32)"

definition UninitializedMoveOrCopy ::
  "'a element_type \<Rightarrow> 'a block \<Rightarrow> nat \<Rightarrow> int \<Rightarrow> 'a block \<Rightarrow> nat
   \<Rightarrow> (unit, 'a block \<times> 'a block) outcome" where
  "UninitializedMoveOrCopy T src from number_of_elements dst to =
     (if is_nothrow_move_constructible T \<or> \<not> is_copy_constructible T then
        uninitialized_move_n T src from (nat number_of_elements) dst to
      else
        (case uninitialized_copy_n T src from (nat number_of_elements) dst to of
           (r, dst') \<Rightarrow> (r, src, dst')))"

text \<open>\<^verbatim>\<open>operator[]\<close>, with its assertion; the value read is that of a live object.\<close>

definition Vector_index :: "'a Vector \<Rightarrow> nat \<Rightarrow> error + 'a" where
  "Vector_index v index =
     (if \<not> index < size_m v then Inl AssertionFailure
      else if \<not> index < capacity_m (data_m v) then Inl AssertionFailure
      else (case slot_at (buffer_m (data_m v)) index of
              None \<Rightarrow> Inl UndefinedBehaviour
            | Some x \<Rightarrow> Inr x))"

definition Vector_sized :: "'a element_type \<Rightarrow> nat \<Rightarrow> error + 'a Vector" where
  "Vector_sized T n =
     (case RawMemory_sized T n of
        Inl e \<Rightarrow> Inl e
      | Inr d \<Rightarrow>
          (case uninitialized_value_construct_n T (buffer_m d) 0 n of
             (Inl e, b) \<Rightarrow> Inl e
           | (Inr u, b) \<Rightarrow> Inr \<lparr>data_m = d\<lparr>buffer_m := b\<rparr>, size_m = n\<rparr>))"

definition Vector_copy_ctor :: "'a element_type \<Rightarrow> 'a Vector \<Rightarrow> error + 'a Vector" where
  "Vector_copy_ctor T other =
     (case RawMemory_sized T (size_m other) of
        Inl e \<Rightarrow> Inl e
      | Inr d \<Rightarrow>
          (case uninitialized_copy_n T (buffer_m (data_m other)) 0 (size_m other) (buffer_m d) 0 of
             (Inl e, b) \<Rightarrow> Inl e
           | (Inr u, b) \<Rightarrow> Inr \<lparr>data_m = d\<lparr>buffer_m := b\<rparr>, size_m = size_m other\<rparr>))"

definition Reserve :: "'a element_type \<Rightarrow> nat \<Rightarrow> 'a Vector \<Rightarrow> (unit, 'a Vector) outcome" where
  "Reserve T new_capacity v =
     (if new_capacity \<le> capacity_m (data_m v) then (Inr (), v)
      else
        (case RawMemory_sized T new_capacity of
           Inl e \<Rightarrow> (Inl e, v)
         | Inr new_data \<Rightarrow>
             (case UninitializedMoveOrCopy T (buffer_m (data_m v)) 0 (to_int (size_m v))
                     (buffer_m new_data) 0 of
                (Inl e, old, new) \<Rightarrow> (Inl e, with_buffer v old)
              | (Inr u, old, new) \<Rightarrow>
                  (case RawMemory_Swap ((data_m v)\<lparr>buffer_m := destroy_n old 0 (size_m v)\<rparr>)
                          (new_data\<lparr>buffer_m := new\<rparr>) of
                     (d, nd) \<Rightarrow> (Inr (), v\<lparr>data_m := d\<rparr>)))))"

definition Resize :: "'a element_type \<Rightarrow> nat \<Rightarrow> 'a Vector \<Rightarrow> (unit, 'a Vector) outcome" where
  "Resize T new_size v =
     (if size_m v = new_size then (Inr (), v)
      else if new_size < size_m v then
        (Inr (), (with_buffer v (destroy_n (buffer_m (data_m v)) new_size (size_m v - new_size)))
                   \<lparr>size_m := new_size\<rparr>)
      else
        (case Reserve T new_size v of
           (Inl e, v1) \<Rightarrow> (Inl e, v1)
         | (Inr u, v1) \<Rightarrow>
             (case uninitialized_value_construct_n T (buffer_m (data_m v1)) (size_m v1)
                     (new_size - size_m v1) of
                (Inl e, b) \<Rightarrow> (Inl e, with_buffer v1 b)
              | (Inr u', b) \<Rightarrow> (Inr (), (with_buffer v1 b)\<lparr>size_m := new_size\<rparr>))))"

text \<open>
  \<^verbatim>\<open>PopBack\<close> and \<^verbatim>\<open>Erase\<close>. The first test of each is the precondition of the source
  (a non-empty vector; a position in \<^verbatim>\<open>[begin, end)\<close>), which the source does not check.
\<close>

definition PopBack :: "'a Vector \<Rightarrow> (unit, 'a Vector) outcome" where
  "PopBack v =
     (if size_m v = 0 then (Inl UndefinedBehaviour, v)
      else (Inr (), (with_buffer v (destroy_n (buffer_m (data_m v)) (size_m v - 1) 1))
                      \<lparr>size_m := size_m v - 1\<rparr>))"

definition Erase :: "'a element_type \<Rightarrow> nat \<Rightarrow> 'a Vector \<Rightarrow> (nat, 'a Vector) outcome" where
  "Erase T pos v =
     (if \<not> pos < size_m v then (Inl UndefinedBehaviour, v)
      else
        (let distance = pos in
         case std_move T (buffer_m (data_m v)) (distance + 1) (size_m v) distance of
           (Inl e, b) \<Rightarrow> (Inl e, with_buffer v b)
         | (Inr u, b) \<Rightarrow>
             (case PopBack (with_buffer v b) of
                (Inl e, v1) \<Rightarrow> (Inl e, v1)
              | (Inr u', v1) \<Rightarrow> (Inr distance, v1))))"

text \<open>
  \<^verbatim>\<open>Emplace\<close> and its helpers. \<open>ctor\<close> is the one constructor call
  \<^verbatim>\<open>T(std::forward<Args>(args)...)\<close> that every path makes. The arguments are references,
  and they may refer to elements of the vector itself, so the call is a function of the
  buffer of the vector at the moment it runs: it returns the error when it throws (the
  buffer is then as it was), and otherwise the value of the new object together with the
  buffer as the call leaves it (an rvalue argument is moved from).
  In \<^verbatim>\<open>EmplaceWithReallocation\<close> the new element is constructed first, in the new buffer,
  and the old elements are transferred after it. The new buffer is a local object: when a
  transfer throws, the handlers destroy what was built in it and its destructor releases it,
  and the vector keeps the old buffer, in the state the constructor call and the transfer
  left it. When both transfers return, the buffers are swapped, and the old elements are
  destroyed in the old block, which the destructor of the local object then releases.
\<close>

type_synonym 'a constructor_call = "'a block \<Rightarrow> error + 'a \<times> 'a block"

definition EmplaceWithReallocation ::
  "'a element_type \<Rightarrow> nat \<Rightarrow> 'a constructor_call \<Rightarrow> 'a Vector \<Rightarrow> (unit, 'a Vector) outcome" where
  "EmplaceWithReallocation T pos ctor v =
     (let distance = pos in
      case RawMemory_sized T (if size_m v = 0 then 1 else size_m v * 2) of
        Inl e \<Rightarrow> (Inl e, v)
      | Inr new_data \<Rightarrow>
          if \<not> distance \<le> capacity_m new_data then (Inl AssertionFailure, v)
          else
            (case ctor (buffer_m (data_m v)) of
               Inl e \<Rightarrow> (Inl e, v)
             | Inr (x, b) \<Rightarrow>
                 (case UninitializedMoveOrCopy T b 0 (to_int distance)
                         ((buffer_m new_data)[distance := Some x]) 0 of
                    (Inl e, old, new) \<Rightarrow> (Inl e, with_buffer v old)
                  | (Inr u, old, new) \<Rightarrow>
                      (case UninitializedMoveOrCopy T old distance (to_int (size_m v - distance))
                              new (distance + 1) of
                         (Inl e, old', new') \<Rightarrow> (Inl e, with_buffer v old')
                       | (Inr u', old', new') \<Rightarrow>
                           (case RawMemory_Swap ((data_m v)\<lparr>buffer_m := old'\<rparr>)
                                   (new_data\<lparr>buffer_m := new'\<rparr>) of
                              (d, nd) \<Rightarrow> (Inr (), v\<lparr>data_m := d\<rparr>))))))"

definition EmplaceWithoutReallocation ::
  "'a element_type \<Rightarrow> nat \<Rightarrow> 'a constructor_call \<Rightarrow> 'a Vector \<Rightarrow> (unit, 'a Vector) outcome" where
  "EmplaceWithoutReallocation T pos ctor v =
     (let distance = pos in
      if pos = size_m v then
        (case ctor (buffer_m (data_m v)) of
           Inl e \<Rightarrow> (Inl e, v)
         | Inr (x, b) \<Rightarrow> (Inr (), with_buffer v (b[size_m v := Some x])))
      else
        (case ctor (buffer_m (data_m v)) of
           Inl e \<Rightarrow> (Inl e, v)
         | Inr (tmp, b) \<Rightarrow>
             (case uninitialized_move_n_within T b (size_m v - 1) 1 (size_m v) of
                (Inl e, b1) \<Rightarrow> (Inl e, with_buffer v b1)
              | (Inr u, b1) \<Rightarrow>
                  if \<not> distance \<le> capacity_m (data_m v) then (Inl AssertionFailure, with_buffer v b1)
                  else
                    (case move_backward T b1 distance (size_m v - 1) (size_m v) of
                       (Inl e, b2) \<Rightarrow> (Inl e, with_buffer v b2)
                     | (Inr u', b2) \<Rightarrow>
                         if \<not> distance < capacity_m (data_m v)
                         then (Inl AssertionFailure, with_buffer v b2)
                         else
                           (case slot_at b2 distance of
                              None \<Rightarrow> (Inl UndefinedBehaviour, with_buffer v b2)
                            | Some old \<Rightarrow>
                                (case move_asgn T old tmp of
                                   None \<Rightarrow> (Inl ElementConstructionFailure, with_buffer v b2)
                                 | Some (y, r) \<Rightarrow>
                                     (Inr (), with_buffer v (b2[distance := Some y]))))))))"

text \<open>
  The first test of \<open>Emplace\<close> is the precondition of the source, a position in
  \<^verbatim>\<open>[begin, end]\<close>, which the source does not check. The returned iterator is
  \<^verbatim>\<open>begin() + distance\<close>.
\<close>

definition Emplace ::
  "'a element_type \<Rightarrow> nat \<Rightarrow> 'a constructor_call \<Rightarrow> 'a Vector \<Rightarrow> (nat, 'a Vector) outcome" where
  "Emplace T pos ctor v =
     (if \<not> pos \<le> size_m v then (Inl UndefinedBehaviour, v)
      else
        (let distance = pos in
         case (if size_m v = Capacity v then EmplaceWithReallocation T pos ctor v
               else EmplaceWithoutReallocation T pos ctor v) of
           (Inl e, v1) \<Rightarrow> (Inl e, v1)
         | (Inr u, v1) \<Rightarrow> (Inr distance, v1\<lparr>size_m := size_m v1 + 1\<rparr>)))"

definition EmplaceBack ::
  "'a element_type \<Rightarrow> 'a constructor_call \<Rightarrow> 'a Vector \<Rightarrow> (nat, 'a Vector) outcome" where
  "EmplaceBack T ctor v = Emplace T (size_m v) ctor v"

text \<open>
  A constructor call whose arguments refer to nothing in the vector, such as
  \<^verbatim>\<open>Emplace(pos, 5)\<close>: \<open>c\<close> is its outcome, \<open>None\<close> when it throws, and the buffer is left
  as it is.
\<close>

definition independent_ctor :: "'a option \<Rightarrow> 'a constructor_call" where
  "independent_ctor c b =
     (case c of None \<Rightarrow> Inl ElementConstructionFailure | Some x \<Rightarrow> Inr (x, b))"

text \<open>
  \<^verbatim>\<open>PushBack\<close> and \<^verbatim>\<open>Insert\<close> take a forwarding reference \<^verbatim>\<open>V&& value\<close> to an object of the
  element type: an lvalue is copied into the new element, an rvalue is moved into it. The
  object referred to is either outside the vector (\<open>Lvalue x\<close>, \<open>Rvalue x\<close>, with its
  value \<open>x\<close>) or the element of index \<open>i\<close> of the vector itself: \<open>Lvalue_element i\<close> is
  the argument \<^verbatim>\<open>v[i]\<close> and \<open>Rvalue_element i\<close> the argument \<^verbatim>\<open>std::move(v[i])\<close>, whose move
  leaves the moved-from value in the slot of the element.
\<close>

datatype 'a argument = Lvalue 'a | Rvalue 'a | Lvalue_element nat | Rvalue_element nat

definition forward_construct :: "'a element_type \<Rightarrow> 'a argument \<Rightarrow> 'a constructor_call" where
  "forward_construct T a b =
     (case a of
        Lvalue x \<Rightarrow>
          (case copy_ctor T x of
             None \<Rightarrow> Inl ElementConstructionFailure
           | Some y \<Rightarrow> Inr (y, b))
      | Rvalue x \<Rightarrow>
          (case move_ctor T x of
             None \<Rightarrow> Inl ElementConstructionFailure
           | Some (y, r) \<Rightarrow> Inr (y, b))
      | Lvalue_element i \<Rightarrow>
          (case slot_at b i of
             None \<Rightarrow> Inl UndefinedBehaviour
           | Some x \<Rightarrow>
               (case copy_ctor T x of
                  None \<Rightarrow> Inl ElementConstructionFailure
                | Some y \<Rightarrow> Inr (y, b)))
      | Rvalue_element i \<Rightarrow>
          (case slot_at b i of
             None \<Rightarrow> Inl UndefinedBehaviour
           | Some x \<Rightarrow>
               (case move_ctor T x of
                  None \<Rightarrow> Inl ElementConstructionFailure
                | Some (y, r) \<Rightarrow> Inr (y, b[i := Some r]))))"

definition PushBack :: "'a element_type \<Rightarrow> 'a argument \<Rightarrow> 'a Vector \<Rightarrow> (unit, 'a Vector) outcome" where
  "PushBack T val v =
     (case EmplaceBack T (forward_construct T val) v of
        (Inl e, v1) \<Rightarrow> (Inl e, v1)
      | (Inr i, v1) \<Rightarrow> (Inr (), v1))"

definition Insert :: "'a element_type \<Rightarrow> nat \<Rightarrow> 'a argument \<Rightarrow> 'a Vector \<Rightarrow> (nat, 'a Vector) outcome" where
  "Insert T pos val v = Emplace T pos (forward_construct T val) v"

text \<open>
  Copy assignment, \<^verbatim>\<open>*this = rhs\<close> for the vectors at addresses \<open>this\<close> and \<open>rhs\<close>. The
  temporary \<^verbatim>\<open>rhs_copy\<close> is a new object: it is placed at an address \<open>local\<close> that is
  neither \<open>this\<close> nor \<open>rhs\<close>, \<^verbatim>\<open>Swap(rhs_copy)\<close> is \<open>Swap\<close> with that address, and at the
  end of the block its destructor takes the old elements away and the address holds what it
  held before.
\<close>

definition Vector_copy_assign ::
  "'a element_type \<Rightarrow> nat \<Rightarrow> nat \<Rightarrow> 'a store \<Rightarrow> (unit, 'a store) outcome" where
  "Vector_copy_assign T this rhs s =
     (if this \<noteq> rhs then
        (if size_m (s rhs) > capacity_m (data_m (s this)) then
           (case Vector_copy_ctor T (s rhs) of
              Inl e \<Rightarrow> (Inl e, s)
            | Inr rhs_copy \<Rightarrow>
                (let local = Suc (max this rhs);
                     s1 = Swap this local (s(local := rhs_copy))
                 in (Inr (), s1(local := s local))))
         else
           (case copy_n T (buffer_m (data_m (s rhs))) 0 (min (size_m (s this)) (size_m (s rhs)))
                   (buffer_m (data_m (s this))) 0 of
              (Inl e, b) \<Rightarrow> (Inl e, s(this := with_buffer (s this) b))
            | (Inr u, b) \<Rightarrow>
                if size_m (s rhs) < size_m (s this) then
                  (Inr (), s(this := (with_buffer (s this)
                       (destroy_n b (size_m (s rhs)) (size_m (s this) - size_m (s rhs))))
                       \<lparr>size_m := size_m (s rhs)\<rparr>))
                else
                  (case uninitialized_copy_n T (buffer_m (data_m (s rhs))) (size_m (s this))
                          (size_m (s rhs) - size_m (s this)) b (size_m (s this)) of
                     (Inl e, b') \<Rightarrow> (Inl e, s(this := with_buffer (s this) b'))
                   | (Inr u', b') \<Rightarrow>
                       (Inr (), s(this := (with_buffer (s this) b')\<lparr>size_m := size_m (s rhs)\<rparr>)))))
      else (Inr (), s))"

section \<open>Properties of element types and of vectors\<close>

text \<open>
  The invariant of the class: the block has \<^verbatim>\<open>capacity_\<close> slots, \<^verbatim>\<open>size_\<close> is at most the
  capacity, the first \<^verbatim>\<open>size_\<close> slots hold live objects and the others are raw.
\<close>

definition vector_inv :: "'a Vector \<Rightarrow> bool" where
  "vector_inv v \<longleftrightarrow>
     length (buffer_m (data_m v)) = capacity_m (data_m v)
     \<and> size_m v \<le> capacity_m (data_m v)
     \<and> list_all (\<lambda>x. x \<noteq> None) (take (size_m v) (buffer_m (data_m v)))
     \<and> list_all (\<lambda>x. x = None) (drop (size_m v) (buffer_m (data_m v)))"

text \<open>The element sequence: the slots \<^verbatim>\<open>[begin(), end())\<close>.\<close>

definition elements :: "'a Vector \<Rightarrow> 'a option list" where
  "elements v = take (size_m v) (buffer_m (data_m v))"

text \<open>
  An element type is value preserving when a copy or a move that returns gives its target
  the value of its source; it never throws when every special member function returns.
  The trait \<^verbatim>\<open>is_nothrow_move_constructible\<close> is sound when a type that has it has a move
  constructor that returns (a \<^verbatim>\<open>noexcept\<close> function that throws ends the program).
\<close>

definition value_preserving :: "'a element_type \<Rightarrow> bool" where
  "value_preserving T \<longleftrightarrow>
     (\<forall>x y. copy_ctor T x = Some y \<longrightarrow> y = x)
     \<and> (\<forall>x y r. move_ctor T x = Some (y, r) \<longrightarrow> y = x)
     \<and> (\<forall>d x y. copy_asgn T d x = Some y \<longrightarrow> y = x)
     \<and> (\<forall>d x y r. move_asgn T d x = Some (y, r) \<longrightarrow> y = x)"

definition never_throws :: "'a element_type \<Rightarrow> bool" where
  "never_throws T \<longleftrightarrow>
     value_ctor T \<noteq> None
     \<and> (\<forall>x. copy_ctor T x \<noteq> None)
     \<and> (\<forall>x. move_ctor T x \<noteq> None)
     \<and> (\<forall>d x. copy_asgn T d x \<noteq> None)
     \<and> (\<forall>d x. move_asgn T d x \<noteq> None)"

definition trait_sound :: "'a element_type \<Rightarrow> bool" where
  "trait_sound T \<longleftrightarrow> (is_nothrow_move_constructible T \<longrightarrow> (\<forall>x. move_ctor T x \<noteq> None))"

section \<open>Two element types and some vectors\<close>

text \<open>
  An arithmetic element type such as \<^verbatim>\<open>char\<close> or \<^verbatim>\<open>int\<close>, its values written as integers:
  every operation returns, copies and moves keep the value, and a moved-from object keeps
  its value too. Memory is available up to \<open>memory_limit\<close> elements.
\<close>

definition arithmetic_type :: "nat \<Rightarrow> int element_type" where
  "arithmetic_type memory_limit =
     \<lparr>value_ctor = Some 0,
      copy_ctor = (\<lambda>x. Some x),
      move_ctor = (\<lambda>x. Some (x, x)),
      copy_asgn = (\<lambda>d x. Some x),
      move_asgn = (\<lambda>d x. Some (x, x)),
      is_nothrow_move_constructible = True,
      is_copy_constructible = True,
      can_allocate = (\<lambda>n. n \<le> memory_limit)\<rparr>"

text \<open>
  A class wrapping an \<^verbatim>\<open>int\<close> whose copy constructor, copy assignment and move assignment
  throw when the source holds 13, and whose move constructor is not \<^verbatim>\<open>noexcept\<close>; a
  moved-from object holds 0.
\<close>

definition fragile_type :: "int element_type" where
  "fragile_type =
     \<lparr>value_ctor = Some 0,
      copy_ctor = (\<lambda>x. if x = 13 then None else Some x),
      move_ctor = (\<lambda>x. Some (x, 0)),
      copy_asgn = (\<lambda>d x. if x = 13 then None else Some x),
      move_asgn = (\<lambda>d x. if x = 13 then None else Some (x, 0)),
      is_nothrow_move_constructible = False,
      is_copy_constructible = True,
      can_allocate = (\<lambda>n. True)\<rparr>"

text \<open>The vector holding the values \<open>xs\<close> in a buffer with \<open>spare\<close> further slots.\<close>

definition vector_of :: "'a list \<Rightarrow> nat \<Rightarrow> 'a Vector" where
  "vector_of xs spare =
     \<lparr>data_m = \<lparr>buffer_m = map Some xs @ replicate spare None, capacity_m = length xs + spare\<rparr>,
      size_m = length xs\<rparr>"

text \<open>A store with the vector \<open>[1, 2]\<close> at address 0 and \<open>[7, 8, 9]\<close> at address 1.\<close>

definition example_store :: "int store" where
  "example_store = (\<lambda>a. Vector_default)(0 := vector_of [1, 2] 0, 1 := vector_of [7, 8, 9] 1)"

text \<open>
  The value of the object an argument refers to when that object is outside the vector;
  the arguments whose construction of the new element writes to the vector, the rvalue
  references to its own elements; and a sequence of \<^verbatim>\<open>PushBack\<close> calls, which ends at the
  first call that throws.
\<close>

definition outside_value :: "'a argument \<Rightarrow> 'a option" where
  "outside_value a =
     (case a of
        Lvalue x \<Rightarrow> Some x
      | Rvalue x \<Rightarrow> Some x
      | Lvalue_element i \<Rightarrow> None
      | Rvalue_element i \<Rightarrow> None)"

definition moves_an_element :: "'a argument \<Rightarrow> bool" where
  "moves_an_element a =
     (case a of
        Lvalue x \<Rightarrow> False
      | Rvalue x \<Rightarrow> False
      | Lvalue_element i \<Rightarrow> False
      | Rvalue_element i \<Rightarrow> True)"

fun PushBack_all :: "'a element_type \<Rightarrow> 'a argument list \<Rightarrow> 'a Vector \<Rightarrow> (unit, 'a Vector) outcome" where
  "PushBack_all T [] v = (Inr (), v)"
| "PushBack_all T (a # as) v =
     (case PushBack T a v of
        (Inl e, v1) \<Rightarrow> (Inl e, v1)
      | (Inr u, v1) \<Rightarrow> PushBack_all T as v1)"

text \<open>
  The sizes and capacities that \<^verbatim>\<open>PushBack\<close> calls on a default-constructed vector lead
  to: with \<open>n\<close> elements and \<open>k\<close> spare slots, the capacity \<open>n + k\<close> is 0 for the empty
  vector and otherwise a power of two below \<open>2 * n\<close>.
\<close>

definition doubled_capacity :: "nat \<Rightarrow> nat \<Rightarrow> bool" where
  "doubled_capacity n k \<longleftrightarrow> (n = 0 \<and> k = 0) \<or> (\<exists>j. n + k = 2 ^ j \<and> n + k < 2 * n)"

text \<open>A full vector of \<open>2 ^ 31\<close> elements, all equal to 7.\<close>

definition large_vector :: "int Vector" where
  "large_vector = vector_of (replicate (2 ^ 31) 7) 0"

section \<open>Evaluation on concrete vectors\<close>

lemmas vector_eval =
  Emplace_def EmplaceWithReallocation_def EmplaceWithoutReallocation_def EmplaceBack_def
  PushBack_def Insert_def forward_construct_def Erase_def PopBack_def Reserve_def Resize_def
  Vector_index_def Capacity_def Size_def RawMemory_Capacity_def RawMemory_sized_def Allocate_def
  RawMemory_Swap_def UninitializedMoveOrCopy_def to_int_def uninitialized_copy_n_def
  uninitialized_move_n_def uninitialized_move_n_within_def uninitialized_value_construct_n_def
  std_move_def move_backward_def move_assign_slot_def slot_at_def with_buffer_def vector_of_def
  elements_def vector_inv_def independent_ctor_def Let_def eval_nat_numeral

lemma with_buffer_same [simp]: "with_buffer v (buffer_m (data_m v)) = v"
  by (simp add: with_buffer_def)

lemma independent_ctor_simps [simp]:
  "independent_ctor (Some x) b = Inr (x, b)"
  "independent_ctor None b = Inl ElementConstructionFailure"
  by (simp_all add: independent_ctor_def)

text \<open>The two scenarios of the specification, on \<^verbatim>\<open>Vector<int>\<close>.\<close>

lemma scenario_push_erase_pop:
  "PushBack_all (arithmetic_type 100) [Lvalue 1, Lvalue 2, Lvalue 3] Vector_default
     = (Inr (), vector_of [1, 2, 3] 1)"
  "EmplaceBack (arithmetic_type 100) (independent_ctor (Some 4)) (vector_of [1, 2, 3] 1) = (Inr 3, vector_of [1, 2, 3, 4] 0)"
  "Erase (arithmetic_type 100) 1 (vector_of [1, 2, 3, 4] 0) = (Inr 1, vector_of [1, 3, 4] 1)"
  "PopBack (vector_of [1, 3, 4 :: int] 1) = (Inr (), vector_of [1, 3] 2)"
  by (simp_all add: vector_eval arithmetic_type_def Vector_default_def RawMemory_default_def)

lemma scenario_sized_insert:
  "Vector_sized (arithmetic_type 100) 5 = Inr (vector_of [0, 0, 0, 0, 0] 0)"
  "Insert (arithmetic_type 100) 2 (Lvalue 10) (vector_of [0, 0, 0, 0, 0] 0)
     = (Inr 2, vector_of [0, 0, 10, 0, 0, 0] 4)"
  by (simp_all add: vector_eval Vector_sized_def arithmetic_type_def)

text \<open>
  Insertions whose argument is an element of the vector itself. The new element is
  constructed before anything is shifted or transferred, so \<^verbatim>\<open>v.PushBack(v[0])\<close> and
  \<^verbatim>\<open>v.Insert(v.begin(), v[1])\<close> insert the value the element had; with
  \<^verbatim>\<open>v.PushBack(std::move(v[0]))\<close> the element is moved from, and what is transferred to the
  new buffer is the moved-from value.
\<close>

lemma scenario_own_element:
  "PushBack (arithmetic_type 100) (Lvalue_element 0) (vector_of [1, 2] 0)
     = (Inr (), vector_of [1, 2, 1] 1)"
  "Insert (arithmetic_type 100) 0 (Lvalue_element 1) (vector_of [1, 2] 1)
     = (Inr 0, vector_of [2, 1, 2] 0)"
  "PushBack fragile_type (Rvalue_element 0) (vector_of [7, 8] 0)
     = (Inr (), vector_of [0, 8, 7] 1)"
  "PushBack (arithmetic_type 100) (Lvalue_element 2) (vector_of [1, 2] 0)
     = (Inl UndefinedBehaviour, vector_of [1, 2] 0)"
  by (simp_all add: vector_eval arithmetic_type_def fragile_type_def)

section \<open>Move construction and move assignment\<close>

lemma Vector_move_assign_distinct:
  assumes "this \<noteq> rhs"
  shows "Vector_move_assign this rhs s = s(this := s rhs, rhs := Vector_default)"
  using assms
  by (auto simp: Vector_move_assign_def data_move_assign_def RawMemory_move_assign_def Let_def
      Vector_default_def RawMemory_default_def fun_eq_iff)

lemma Vector_move_assign_self: "Vector_move_assign a a s = s"
  by (simp add: Vector_move_assign_def data_move_assign_def RawMemory_move_assign_def Let_def
      fun_eq_iff)

lemma Vector_move_ctor_eq: "Vector_move_ctor other = (other, Vector_default)"
  by (simp add: Vector_move_ctor_def RawMemory_move_assign_def Vector_default_def
      RawMemory_default_def)

lemma Vector_default_empty:
  "Size Vector_default = 0" "Capacity Vector_default = 0" "elements Vector_default = []"
  by (simp_all add: Vector_default_def RawMemory_default_def Size_def Capacity_def
      RawMemory_Capacity_def elements_def)

text \<open>
  C4, as stated, fails when a vector is move-assigned to itself: \<^verbatim>\<open>RawMemory::operator=\<close>
  tests \<^verbatim>\<open>this != &rhs\<close> and keeps the buffer, and \<^verbatim>\<open>size_ = std::exchange(rhs.size_, 0)\<close>
  writes the old size back. The vector \<open>[1, 2]\<close> at address 0 keeps size 2, capacity 2 and
  its elements; it is not left empty.
\<close>

theorem move_assign_to_itself_not_empty:
  "Size (Vector_move_assign 0 0 example_store 0) = 2
   \<and> Capacity (Vector_move_assign 0 0 example_store 0) = 2
   \<and> elements (Vector_move_assign 0 0 example_store 0) = [Some 1, Some 2]
   \<and> \<not> (Size (Vector_move_assign 0 0 example_store 0) = 0
        \<and> Capacity (Vector_move_assign 0 0 example_store 0) = 0)"
  by (simp add: Vector_move_assign_self example_store_def vector_of_def Size_def Capacity_def
      RawMemory_Capacity_def elements_def)

text \<open>
  C4, amended. Move construction from \<open>a\<close>, and move assignment from the vector at \<open>rhs\<close>
  to a different vector at \<open>this\<close>, have no failing outcome, leave the source as the
  default vector (size 0, capacity 0, no storage), and give the destination the whole
  prior state of the source: its size, its capacity and its elements in their order. No
  other vector of the store changes. Move-assigning a vector to itself changes nothing.
\<close>

theorem move_empties_the_source:
  assumes "this \<noteq> rhs"
  shows "fst (Vector_move_ctor a) = a
         \<and> Size (snd (Vector_move_ctor a)) = 0
         \<and> Capacity (snd (Vector_move_ctor a)) = 0
         \<and> Vector_move_assign this rhs s this = s rhs
         \<and> Size (Vector_move_assign this rhs s this) = Size (s rhs)
         \<and> Capacity (Vector_move_assign this rhs s this) = Capacity (s rhs)
         \<and> elements (Vector_move_assign this rhs s this) = elements (s rhs)
         \<and> Size (Vector_move_assign this rhs s rhs) = 0
         \<and> Capacity (Vector_move_assign this rhs s rhs) = 0
         \<and> Vector_move_assign this rhs s = s(this := s rhs, rhs := Vector_default)
         \<and> Vector_move_assign rhs rhs s = s"
  using assms
  by (simp add: Vector_move_assign_distinct Vector_move_assign_self Vector_move_ctor_eq
      Vector_default_empty)

theorem move_empties_the_source_witness:
  "(0::nat) \<noteq> 1
   \<and> elements (Vector_move_assign 0 1 example_store 0) = [Some 7, Some 8, Some 9]
   \<and> Capacity (Vector_move_assign 0 1 example_store 0) = 4
   \<and> Size (Vector_move_assign 0 1 example_store 1) = 0
   \<and> Capacity (Vector_move_assign 0 1 example_store 1) = 0"
proof -
  have distinct: "(0::nat) \<noteq> 1" by simp
  from move_empties_the_source [OF distinct, of "vector_of [] 0" example_store]
  have moved: "Vector_move_assign 0 1 example_store 0 = example_store 1"
    and emptied: "Size (Vector_move_assign 0 1 example_store 1) = 0"
      "Capacity (Vector_move_assign 0 1 example_store 1) = 0"
    by blast+
  have "elements (example_store 1) = [Some 7, Some 8, Some 9]"
    and "Capacity (example_store 1) = 4"
    by (simp_all add: example_store_def vector_of_def elements_def Capacity_def
        RawMemory_Capacity_def)
  with moved emptied show ?thesis by simp
qed

section \<open>Growth of the capacity\<close>

lemma Emplace_full_capacity:
  assumes "size_m v = Capacity v" and "Emplace T pos ctor v = (Inr r, v')"
  shows "Capacity v' = max 1 (2 * Capacity v)"
  using assms
  by (auto simp: Emplace_def EmplaceWithReallocation_def RawMemory_sized_def Allocate_def
      Capacity_def RawMemory_Capacity_def RawMemory_Swap_def Let_def
      split: if_splits sum.splits prod.splits option.splits)

text \<open>
  C3. On a vector with \<^verbatim>\<open>Size() == Capacity()\<close>, an insertion that returns (\<^verbatim>\<open>Emplace\<close>,
  \<^verbatim>\<open>Insert\<close>, \<^verbatim>\<open>EmplaceBack\<close> or \<^verbatim>\<open>PushBack\<close>) leaves the capacity at the maximum of 1 and
  twice the old capacity.
\<close>

theorem insertion_doubles_full_capacity:
  assumes "size_m v = Capacity v"
  shows "(Emplace T pos ctor v = (Inr r, v') \<longrightarrow> Capacity v' = max 1 (2 * Capacity v))
         \<and> (Insert T pos val v = (Inr r, v') \<longrightarrow> Capacity v' = max 1 (2 * Capacity v))
         \<and> (EmplaceBack T ctor v = (Inr r, v') \<longrightarrow> Capacity v' = max 1 (2 * Capacity v))
         \<and> (PushBack T val v = (Inr u, v') \<longrightarrow> Capacity v' = max 1 (2 * Capacity v))"
  using assms Emplace_full_capacity [of v T]
  by (auto simp: Insert_def EmplaceBack_def PushBack_def split: prod.splits sum.splits)

theorem insertion_doubles_full_capacity_witness:
  "size_m (vector_of [1, 2 :: int] 0) = Capacity (vector_of [1, 2 :: int] 0)
   \<and> Emplace (arithmetic_type 100) 1 (independent_ctor (Some 5)) (vector_of [1, 2] 0) = (Inr 1, vector_of [1, 5, 2] 1)
   \<and> Capacity (vector_of [1, 5, 2 :: int] 1) = max 1 (2 * Capacity (vector_of [1, 2 :: int] 0))"
proof -
  have full: "size_m (vector_of [1, 2 :: int] 0) = Capacity (vector_of [1, 2 :: int] 0)"
    by (simp add: vector_of_def Capacity_def RawMemory_Capacity_def)
  have run: "Emplace (arithmetic_type 100) 1 (independent_ctor (Some 5)) (vector_of [1, 2] 0) = (Inr 1, vector_of [1, 5, 2] 1)"
    by (simp add: vector_eval arithmetic_type_def)
  from insertion_doubles_full_capacity [OF full, of "arithmetic_type 100" 1 "independent_ctor (Some 5)" 1 "vector_of [1, 5, 2] 1"] run
  have "Capacity (vector_of [1, 5, 2 :: int] 1) = max 1 (2 * Capacity (vector_of [1, 2 :: int] 0))"
    by simp
  with full run show ?thesis by simp
qed

section \<open>Failure of a reallocating insertion\<close>

lemma uninitialized_move_loop_returns:
  assumes "\<forall>x. move_ctor T x \<noteq> None"
  shows "fst (uninitialized_move_loop T src from dst first cur n) \<noteq> Inl ElementConstructionFailure"
  using assms
proof (induction n arbitrary: src "from" dst cur)
  case 0
  then show ?case by simp
next
  case (Suc n)
  show ?case
  proof (cases "slot_at src from")
    case None
    then show ?thesis by simp
  next
    case (Some x)
    from Suc.prems have "move_ctor T x \<noteq> None" by blast
    then obtain y r where "move_ctor T x = Some (y, r)" by (cases "move_ctor T x") auto
    with Some Suc.IH [OF Suc.prems] show ?thesis by simp
  qed
qed

lemma UninitializedMoveOrCopy_copies:
  assumes "UninitializedMoveOrCopy T src from k dst to = (r, src', dst')"
    and "\<not> is_nothrow_move_constructible T" and "is_copy_constructible T"
  shows "src' = src"
  using assms by (auto simp: UninitializedMoveOrCopy_def split: prod.splits)

lemma UninitializedMoveOrCopy_failure:
  assumes "trait_sound T" and "is_nothrow_move_constructible T \<or> is_copy_constructible T"
    and "UninitializedMoveOrCopy T src from k dst to = (Inl ElementConstructionFailure, src', dst')"
  shows "src' = src \<and> \<not> is_nothrow_move_constructible T"
  using assms uninitialized_move_loop_returns [of T src "from" dst to to "nat k"]
  by (auto simp: UninitializedMoveOrCopy_def uninitialized_move_n_def trait_sound_def
      split: prod.splits if_splits)

lemma EmplaceWithReallocation_failure:
  assumes "trait_sound T" and "is_nothrow_move_constructible T \<or> is_copy_constructible T"
    and "EmplaceWithReallocation T pos ctor v = (Inl ElementConstructionFailure, v')"
  shows "v' = v \<or> (\<exists>x b. ctor (buffer_m (data_m v)) = Inr (x, b) \<and> v' = with_buffer v b)"
  using assms
  apply (auto simp: EmplaceWithReallocation_def Let_def
      split: sum.splits if_splits option.splits prod.splits dest!: UninitializedMoveOrCopy_failure)
  apply (auto dest: UninitializedMoveOrCopy_copies)
  done

lemma Emplace_full_failure:
  assumes "trait_sound T" and "is_nothrow_move_constructible T \<or> is_copy_constructible T"
    and "size_m v = Capacity v"
    and "Emplace T pos ctor v = (Inl ElementConstructionFailure, v')"
  shows "v' = v \<or> (\<exists>x b. ctor (buffer_m (data_m v)) = Inr (x, b) \<and> v' = with_buffer v b)"
  using assms EmplaceWithReallocation_failure [of T pos ctor v v']
  by (auto simp: Emplace_def Let_def split: if_splits prod.splits sum.splits)

lemma forward_construct_keeps:
  assumes "forward_construct T a b = Inr (x, b')" and "\<not> moves_an_element a"
  shows "b' = b"
  using assms
  by (cases a) (auto simp: forward_construct_def moves_an_element_def split: option.splits)

lemma forward_construct_moves:
  assumes "forward_construct T (Rvalue_element i) b = Inr (x, b')"
  shows "length b' = length b \<and> (\<forall>j. j \<noteq> i \<longrightarrow> slot_at b' j = slot_at b j)"
  using assms by (auto simp: forward_construct_def slot_at_def split: option.splits)

lemma Insert_full_failure:
  assumes "trait_sound T" and "is_nothrow_move_constructible T \<or> is_copy_constructible T"
    and "size_m v = Capacity v"
    and "Insert T pos val v = (Inl ElementConstructionFailure, v')"
  shows "v' = v \<or> (\<exists>x b. forward_construct T val (buffer_m (data_m v)) = Inr (x, b)
            \<and> v' = with_buffer v b)"
  using Emplace_full_failure [OF assms(1-3), of pos "forward_construct T val" v'] assms(4)
  by (simp add: Insert_def)

lemma PushBack_full_failure:
  assumes "trait_sound T" and "is_nothrow_move_constructible T \<or> is_copy_constructible T"
    and "size_m v = Capacity v"
    and "PushBack T val v = (Inl ElementConstructionFailure, v')"
  shows "v' = v \<or> (\<exists>x b. forward_construct T val (buffer_m (data_m v)) = Inr (x, b)
            \<and> v' = with_buffer v b)"
proof -
  from assms(4) have "Emplace T (size_m v) (forward_construct T val) v
      = (Inl ElementConstructionFailure, v')"
    by (auto simp: PushBack_def EmplaceBack_def split: prod.splits sum.splits)
  from Emplace_full_failure [OF assms(1-3) this] show ?thesis .
qed

lemma with_buffer_moved:
  assumes "forward_construct T (Rvalue_element i) (buffer_m (data_m v)) = Inr (x, b)"
  shows "Size (with_buffer v b) = Size v \<and> Capacity (with_buffer v b) = Capacity v
     \<and> (\<forall>j. j \<noteq> i \<longrightarrow> slot_at (buffer_m (data_m (with_buffer v b))) j
                         = slot_at (buffer_m (data_m v)) j)"
  using forward_construct_moves [OF assms]
  by (simp add: with_buffer_def Size_def Capacity_def RawMemory_Capacity_def)

text \<open>
  C2, as the code has it. The element type has a move constructor that cannot throw, or a
  copy constructor, and an insertion into a vector with \<^verbatim>\<open>Size() == Capacity()\<close>
  (\<^verbatim>\<open>Emplace\<close>, \<^verbatim>\<open>Insert\<close> or \<^verbatim>\<open>PushBack\<close>) ends with an exception of an element
  constructor. The new element is constructed before the old ones are transferred, so what
  the failing call leaves is the vector as the construction of the new element left it.
  The claim as stated does not hold when the argument is an rvalue reference to an element
  of the vector itself: on the full vector \<open>[7, 13]\<close> of the element type whose copy
  constructor throws on 13, \<^verbatim>\<open>v.PushBack(std::move(v[0]))\<close> moves from \<^verbatim>\<open>v[0]\<close>, the copy of
  13 into the new buffer throws, and the vector is left as \<open>[0, 13]\<close>.
\<close>

theorem failed_PushBack_of_moved_element_changes_the_vector:
  "trait_sound fragile_type
   \<and> (is_nothrow_move_constructible fragile_type \<or> is_copy_constructible fragile_type)
   \<and> Size (vector_of [7, 13 :: int] 0) = Capacity (vector_of [7, 13 :: int] 0)
   \<and> PushBack fragile_type (Rvalue_element 0) (vector_of [7, 13] 0)
       = (Inl ElementConstructionFailure, vector_of [0, 13] 0)
   \<and> elements (vector_of [0, 13 :: int] 0) \<noteq> elements (vector_of [7, 13] 0)"
  by (simp add: vector_eval trait_sound_def fragile_type_def)

text \<open>
  C2, amended. When the construction of the new element leaves the elements of the vector
  as they are (for \<^verbatim>\<open>Insert\<close> and \<^verbatim>\<open>PushBack\<close>: the argument is not an rvalue reference to an
  element of the vector), the vector after the failing call is the one before it: same
  size, same capacity, same elements. When the argument is \<^verbatim>\<open>std::move(v[i])\<close>, size and
  capacity are kept and every slot other than that of \<^verbatim>\<open>v[i]\<close> is as before.
\<close>

theorem reallocating_insertion_strong_guarantee:
  assumes "trait_sound T" and "is_nothrow_move_constructible T \<or> is_copy_constructible T"
    and "size_m v = Capacity v"
  shows "(Emplace T pos ctor v = (Inl ElementConstructionFailure, v') \<longrightarrow>
            (\<forall>x b. ctor (buffer_m (data_m v)) = Inr (x, b) \<longrightarrow> b = buffer_m (data_m v)) \<longrightarrow>
            v' = v \<and> Size v' = Size v \<and> Capacity v' = Capacity v \<and> elements v' = elements v)
         \<and> (Insert T pos val v = (Inl ElementConstructionFailure, v') \<longrightarrow>
            \<not> moves_an_element val \<longrightarrow>
            v' = v \<and> Size v' = Size v \<and> Capacity v' = Capacity v \<and> elements v' = elements v)
         \<and> (PushBack T val v = (Inl ElementConstructionFailure, v') \<longrightarrow>
            \<not> moves_an_element val \<longrightarrow>
            v' = v \<and> Size v' = Size v \<and> Capacity v' = Capacity v \<and> elements v' = elements v)
         \<and> (Insert T pos (Rvalue_element i) v = (Inl ElementConstructionFailure, v')
              \<or> PushBack T (Rvalue_element i) v = (Inl ElementConstructionFailure, v') \<longrightarrow>
            Size v' = Size v \<and> Capacity v' = Capacity v
            \<and> (\<forall>j. j \<noteq> i \<longrightarrow> slot_at (buffer_m (data_m v')) j = slot_at (buffer_m (data_m v)) j))"
proof (intro conjI impI)
  assume run: "Emplace T pos ctor v = (Inl ElementConstructionFailure, v')"
    and keeps: "\<forall>x b. ctor (buffer_m (data_m v)) = Inr (x, b) \<longrightarrow> b = buffer_m (data_m v)"
  from Emplace_full_failure [OF assms run] keeps have "v' = v" by auto
  then show "v' = v" "Size v' = Size v" "Capacity v' = Capacity v" "elements v' = elements v"
    by simp_all
next
  assume run: "Insert T pos val v = (Inl ElementConstructionFailure, v')"
    and outside: "\<not> moves_an_element val"
  from Insert_full_failure [OF assms run]
    forward_construct_keeps [where T = T and a = val and b = "buffer_m (data_m v)", OF _ outside]
  have "v' = v" by auto
  then show "v' = v" "Size v' = Size v" "Capacity v' = Capacity v" "elements v' = elements v"
    by simp_all
next
  assume run: "PushBack T val v = (Inl ElementConstructionFailure, v')"
    and outside: "\<not> moves_an_element val"
  from PushBack_full_failure [OF assms run]
    forward_construct_keeps [where T = T and a = val and b = "buffer_m (data_m v)", OF _ outside]
  have "v' = v" by auto
  then show "v' = v" "Size v' = Size v" "Capacity v' = Capacity v" "elements v' = elements v"
    by simp_all
next
  assume "Insert T pos (Rvalue_element i) v = (Inl ElementConstructionFailure, v')
      \<or> PushBack T (Rvalue_element i) v = (Inl ElementConstructionFailure, v')"
  with Insert_full_failure [OF assms, of pos "Rvalue_element i" v']
    PushBack_full_failure [OF assms, of "Rvalue_element i" v']
  have "v' = v \<or> (\<exists>x b. forward_construct T (Rvalue_element i) (buffer_m (data_m v)) = Inr (x, b)
            \<and> v' = with_buffer v b)"
    by blast
  then have "Size v' = Size v \<and> Capacity v' = Capacity v
     \<and> (\<forall>j. j \<noteq> i \<longrightarrow> slot_at (buffer_m (data_m v')) j = slot_at (buffer_m (data_m v)) j)"
    using with_buffer_moved [of T i v] by blast
  then show "Size v' = Size v" "Capacity v' = Capacity v"
    "\<forall>j. j \<noteq> i \<longrightarrow> slot_at (buffer_m (data_m v')) j = slot_at (buffer_m (data_m v)) j"
    by blast+
qed

theorem reallocating_insertion_strong_guarantee_witness:
  "trait_sound fragile_type
   \<and> (is_nothrow_move_constructible fragile_type \<or> is_copy_constructible fragile_type)
   \<and> size_m (vector_of [7, 13 :: int] 0) = Capacity (vector_of [7, 13 :: int] 0)
   \<and> \<not> moves_an_element (Lvalue_element 0 :: int argument)
   \<and> fst (PushBack fragile_type (Lvalue_element 0) (vector_of [7, 13] 0)) = Inl ElementConstructionFailure
   \<and> snd (PushBack fragile_type (Lvalue_element 0) (vector_of [7, 13] 0)) = vector_of [7, 13] 0
   \<and> fst (PushBack fragile_type (Rvalue_element 0) (vector_of [7, 13] 0)) = Inl ElementConstructionFailure
   \<and> Size (snd (PushBack fragile_type (Rvalue_element 0) (vector_of [7, 13] 0))) = 2
   \<and> Capacity (snd (PushBack fragile_type (Rvalue_element 0) (vector_of [7, 13] 0))) = 2
   \<and> slot_at (buffer_m (data_m (snd (PushBack fragile_type (Rvalue_element 0) (vector_of [7, 13] 0))))) 1
       = Some 13"
proof -
  let ?v = "vector_of [7, 13 :: int] 0"
  let ?l = "PushBack fragile_type (Lvalue_element 0) ?v"
  let ?r = "PushBack fragile_type (Rvalue_element 0) ?v"
  have sound: "trait_sound fragile_type"
    by (simp add: trait_sound_def fragile_type_def)
  have copyable: "is_nothrow_move_constructible fragile_type \<or> is_copy_constructible fragile_type"
    by (simp add: fragile_type_def)
  have full: "size_m ?v = Capacity ?v"
    by (simp add: vector_of_def Capacity_def RawMemory_Capacity_def)
  have outside: "\<not> moves_an_element (Lvalue_element 0 :: int argument)"
    by (simp add: moves_an_element_def)
  have throws_l: "fst ?l = Inl ElementConstructionFailure"
    by (simp add: vector_eval fragile_type_def)
  then have run_l: "?l = (Inl ElementConstructionFailure, snd ?l)"
    by (metis prod.collapse)
  have throws_r: "fst ?r = Inl ElementConstructionFailure"
    by (simp add: vector_eval fragile_type_def)
  then have run_r: "?r = (Inl ElementConstructionFailure, snd ?r)"
    by (metis prod.collapse)
  note l = reallocating_insertion_strong_guarantee [OF sound copyable full,
      where val = "Lvalue_element 0" and v' = "snd ?l"]
  note r = reallocating_insertion_strong_guarantee [OF sound copyable full,
      where i = 0 and v' = "snd ?r"]
  from l run_l outside have kept: "snd ?l = ?v" by blast
  from r run_r have size: "Size (snd ?r) = Size ?v" and capacity: "Capacity (snd ?r) = Capacity ?v"
    and others: "\<forall>j. j \<noteq> 0 \<longrightarrow>
      slot_at (buffer_m (data_m (snd ?r))) j = slot_at (buffer_m (data_m ?v)) j"
    by blast+
  from others have "slot_at (buffer_m (data_m (snd ?r))) 1 = slot_at (buffer_m (data_m ?v)) 1"
    by simp
  with size capacity have moved: "Size (snd ?r) = 2" "Capacity (snd ?r) = 2"
    "slot_at (buffer_m (data_m (snd ?r))) 1 = Some 13"
    by (simp_all add: Size_def Capacity_def RawMemory_Capacity_def slot_at_def vector_of_def)
  from sound copyable full outside throws_l kept throws_r moved show ?thesis by blast
qed

section \<open>Swap\<close>

lemma swap_data_eq:
  "swap_data a b s = s(a := (s a)\<lparr>data_m := data_m (s b)\<rparr>, b := (s b)\<lparr>data_m := data_m (s a)\<rparr>)"
  by (cases "a = b")
     (auto simp: swap_data_def data_move_assign_def RawMemory_move_ctor_def
        RawMemory_move_assign_def RawMemory_Swap_def RawMemory_default_def Let_def fun_eq_iff)

lemma swap_size_eq:
  "swap_size a b s = s(a := (s a)\<lparr>size_m := size_m (s b)\<rparr>, b := (s b)\<lparr>size_m := size_m (s a)\<rparr>)"
  by (cases "a = b") (auto simp: swap_size_def Let_def fun_eq_iff)

lemma Swap_eq: "Swap a b s = s(a := s b, b := s a)"
  by (cases "a = b") (auto simp: Swap_def swap_data_eq swap_size_eq fun_eq_iff)

text \<open>
  C10. \<^verbatim>\<open>a.Swap(b)\<close> has no failing outcome (it returns a store, not an error) and exchanges
  the whole states of the two vectors, and so their sizes, capacities and elements; every
  other vector is untouched, and swapping twice gives the store back. With \<open>a = b\<close> the
  store is unchanged.
\<close>

theorem Swap_exchanges:
  "Swap a b s a = s b
   \<and> Swap a b s b = s a
   \<and> Size (Swap a b s a) = Size (s b) \<and> Capacity (Swap a b s a) = Capacity (s b)
   \<and> buffer_m (data_m (Swap a b s a)) = buffer_m (data_m (s b))
   \<and> Size (Swap a b s b) = Size (s a) \<and> Capacity (Swap a b s b) = Capacity (s a)
   \<and> buffer_m (data_m (Swap a b s b)) = buffer_m (data_m (s a))
   \<and> Swap a b s = s(a := s b, b := s a)
   \<and> Swap a b (Swap a b s) = s"
  by (cases "a = b") (auto simp: Swap_eq fun_eq_iff)

section \<open>The loops of the standard algorithms\<close>

lemma length_destroy_n [simp]: "length (destroy_n b p n) = length b"
  by (induction n arbitrary: b p) auto

lemma nth_destroy_n:
  "i < length b \<Longrightarrow> destroy_n b p n ! i = (if p \<le> i \<and> i < p + n then None else b ! i)"
  by (induction n arbitrary: b p) (auto simp: nth_list_update)

lemma value_preservingD:
  assumes "value_preserving T"
  shows "copy_ctor T x = Some y \<Longrightarrow> y = x"
    and "move_ctor T x = Some (y, r) \<Longrightarrow> y = x"
    and "copy_asgn T d x = Some y \<Longrightarrow> y = x"
    and "move_asgn T d x = Some (y, r) \<Longrightarrow> y = x"
  using assms unfolding value_preserving_def by blast+

lemma uninitialized_copy_loop_spec:
  assumes "uninitialized_copy_loop T src from dst first cur n = (Inr u, dst')"
    and "value_preserving T" and "cur + n \<le> length dst"
  shows "length dst' = length dst
    \<and> (\<forall>i<length dst. dst' ! i = (if cur \<le> i \<and> i < cur + n then slot_at src (from + (i - cur)) else dst ! i))
    \<and> (\<forall>j<n. slot_at src (from + j) \<noteq> None)"
  using assms
proof (induction n arbitrary: "from" dst cur)
  case 0
  then show ?case by auto
next
  case (Suc n)
  from Suc.prems(1) obtain x where x: "slot_at src from = Some x"
    by (cases "slot_at src from") auto
  with Suc.prems(1) obtain y where y: "copy_ctor T x = Some y"
    by (cases "copy_ctor T x") auto
  with Suc.prems(2) have yx: "y = x" by (auto dest: value_preservingD)
  from Suc.prems(1) x y yx
  have run: "uninitialized_copy_loop T src (Suc from) (dst[cur := Some x]) first (Suc cur) n = (Inr u, dst')"
    by simp
  from Suc.IH [OF run Suc.prems(2)] Suc.prems(3)
  have IH: "length dst' = length dst"
    "\<forall>i<length dst. dst' ! i = (if Suc cur \<le> i \<and> i < Suc cur + n then slot_at src (Suc from + (i - Suc cur)) else dst[cur := Some x] ! i)"
    "\<forall>j<n. slot_at src (Suc from + j) \<noteq> None"
    by auto
  have "\<forall>j<Suc n. slot_at src (from + j) \<noteq> None"
  proof (intro allI impI)
    fix j assume "j < Suc n"
    then show "slot_at src (from + j) \<noteq> None"
      using x IH(3) by (cases j) auto
  qed
  moreover have "\<forall>i<length dst. dst' ! i = (if cur \<le> i \<and> i < cur + Suc n then slot_at src (from + (i - cur)) else dst ! i)"
  proof (intro allI impI)
    fix i assume i: "i < length dst"
    show "dst' ! i = (if cur \<le> i \<and> i < cur + Suc n then slot_at src (from + (i - cur)) else dst ! i)"
    proof (cases "i = cur")
      case True
      with IH(2) i x show ?thesis by simp
    next
      case False
      then have "Suc from + (i - Suc cur) = from + (i - cur)" if "Suc cur \<le> i"
        using that by simp
      with False IH(2) i show ?thesis by auto
    qed
  qed
  ultimately show ?case using IH(1) by blast
qed

lemma slot_at_update:
  "slot_at (b[i := v]) j = (if j = i \<and> i < length b then v else slot_at b j)"
  by (auto simp: slot_at_def)

lemma uninitialized_move_loop_spec:
  assumes "uninitialized_move_loop T src from dst first cur n = (Inr u, src', dst')"
    and "value_preserving T" and "cur + n \<le> length dst"
  shows "length src' = length src \<and> length dst' = length dst
    \<and> (\<forall>i<length dst. dst' ! i = (if cur \<le> i \<and> i < cur + n then slot_at src (from + (i - cur)) else dst ! i))
    \<and> (\<forall>j<n. slot_at src (from + j) \<noteq> None)"
  using assms
proof (induction n arbitrary: src "from" dst cur)
  case 0
  then show ?case by auto
next
  case (Suc n)
  from Suc.prems(1) obtain x where x: "slot_at src from = Some x"
    by (cases "slot_at src from") auto
  with Suc.prems(1) obtain y r where y: "move_ctor T x = Some (y, r)"
    by (cases "move_ctor T x") auto
  with Suc.prems(2) have yx: "y = x" by (auto dest: value_preservingD)
  let ?src = "src[from := Some r]"
  from Suc.prems(1) x y yx
  have run: "uninitialized_move_loop T ?src (Suc from) (dst[cur := Some x]) first (Suc cur) n = (Inr u, src', dst')"
    by simp
  from Suc.IH [OF run Suc.prems(2)] Suc.prems(3)
  have IH: "length src' = length src" "length dst' = length dst"
    "\<forall>i<length dst. dst' ! i = (if Suc cur \<le> i \<and> i < Suc cur + n then slot_at src (Suc from + (i - Suc cur)) else dst[cur := Some x] ! i)"
    "\<forall>j<n. slot_at src (Suc from + j) \<noteq> None"
    by (auto simp: slot_at_update)
  have "\<forall>j<Suc n. slot_at src (from + j) \<noteq> None"
  proof (intro allI impI)
    fix j assume "j < Suc n"
    then show "slot_at src (from + j) \<noteq> None"
      using x IH(4) by (cases j) auto
  qed
  moreover have "\<forall>i<length dst. dst' ! i = (if cur \<le> i \<and> i < cur + Suc n then slot_at src (from + (i - cur)) else dst ! i)"
  proof (intro allI impI)
    fix i assume i: "i < length dst"
    show "dst' ! i = (if cur \<le> i \<and> i < cur + Suc n then slot_at src (from + (i - cur)) else dst ! i)"
    proof (cases "i = cur")
      case True
      with IH(3) i x show ?thesis by simp
    next
      case False
      then have "Suc from + (i - Suc cur) = from + (i - cur)" if "Suc cur \<le> i"
        using that by simp
      with False IH(3) i show ?thesis by auto
    qed
  qed
  ultimately show ?case using IH(1,2) by blast
qed

lemma copy_n_spec:
  assumes "copy_n T src from n dst to = (Inr u, dst')"
    and "value_preserving T" and "to + n \<le> length dst"
  shows "length dst' = length dst
    \<and> (\<forall>i<length dst. dst' ! i = (if to \<le> i \<and> i < to + n then slot_at src (from + (i - to)) else dst ! i))
    \<and> (\<forall>j<n. slot_at src (from + j) \<noteq> None)"
  using assms
proof (induction n arbitrary: "from" dst to)
  case 0
  then show ?case by auto
next
  case (Suc n)
  from Suc.prems(1) obtain x where x: "slot_at src from = Some x"
    by (cases "slot_at src from") auto
  with Suc.prems(1) obtain d where d: "slot_at dst to = Some d"
    by (cases "slot_at dst to") auto
  with x Suc.prems(1) obtain y where y: "copy_asgn T d x = Some y"
    by (cases "copy_asgn T d x") auto
  with Suc.prems(2) have yx: "y = x" by (auto dest: value_preservingD)
  from Suc.prems(1) x d y yx
  have run: "copy_n T src (Suc from) n (dst[to := Some x]) (Suc to) = (Inr u, dst')"
    by simp
  from Suc.IH [OF run Suc.prems(2)] Suc.prems(3)
  have IH: "length dst' = length dst"
    "\<forall>i<length dst. dst' ! i = (if Suc to \<le> i \<and> i < Suc to + n then slot_at src (Suc from + (i - Suc to)) else dst[to := Some x] ! i)"
    "\<forall>j<n. slot_at src (Suc from + j) \<noteq> None"
    by auto
  have "\<forall>j<Suc n. slot_at src (from + j) \<noteq> None"
  proof (intro allI impI)
    fix j assume "j < Suc n"
    then show "slot_at src (from + j) \<noteq> None"
      using x IH(3) by (cases j) auto
  qed
  moreover have "\<forall>i<length dst. dst' ! i = (if to \<le> i \<and> i < to + Suc n then slot_at src (from + (i - to)) else dst ! i)"
  proof (intro allI impI)
    fix i assume i: "i < length dst"
    show "dst' ! i = (if to \<le> i \<and> i < to + Suc n then slot_at src (from + (i - to)) else dst ! i)"
    proof (cases "i = to")
      case True
      with IH(2) i x show ?thesis by simp
    next
      case False
      then have "Suc from + (i - Suc to) = from + (i - to)" if "Suc to \<le> i"
        using that by simp
      with False IH(2) i show ?thesis by auto
    qed
  qed
  ultimately show ?case using IH(1) by blast
qed

lemma move_assign_slot_Inr:
  assumes "move_assign_slot T b d s = (Inr u, b')" and "value_preserving T"
  shows "\<exists>x r. slot_at b s = Some x \<and> slot_at b d \<noteq> None \<and> b' = (b[s := Some r])[d := Some x]"
  using assms
  by (auto simp: move_assign_slot_def split: option.splits dest: value_preservingD)

lemma move_loop_spec:
  assumes "move_loop T b first d_first n = (Inr u, b')"
    and "value_preserving T" and "first = Suc d_first" and "first + n \<le> length b"
  shows "length b' = length b
    \<and> (\<forall>i<length b. i \<noteq> d_first + n \<longrightarrow>
          b' ! i = (if d_first \<le> i \<and> i < d_first + n then b ! Suc i else b ! i))"
  using assms
proof (induction n arbitrary: b first d_first)
  case 0
  then show ?case by auto
next
  case (Suc n)
  from Suc.prems(1) obtain b1 where step: "move_assign_slot T b d_first first = (Inr (), b1)"
    and run: "move_loop T b1 (Suc first) (Suc d_first) n = (Inr u, b')"
    by (auto split: prod.splits sum.splits)
  from move_assign_slot_Inr [OF step Suc.prems(2)] obtain x r
    where x: "slot_at b first = Some x" and b1: "b1 = (b[first := Some r])[d_first := Some x]"
    by blast
  from Suc.prems(3,4) have len: "Suc first + n \<le> length b1" by (simp add: b1)
  from Suc.IH [OF run Suc.prems(2) _ len] Suc.prems(3)
  have IH: "length b' = length b1"
    "\<forall>i<length b1. i \<noteq> Suc d_first + n \<longrightarrow> b' ! i = (if Suc d_first \<le> i \<and> i < Suc d_first + n then b1 ! Suc i else b1 ! i)"
    by auto
  have xb: "b ! first = Some x" using x Suc.prems(4) by (auto simp: slot_at_def split: if_splits)
  have "\<forall>i<length b. i \<noteq> d_first + Suc n \<longrightarrow> b' ! i = (if d_first \<le> i \<and> i < d_first + Suc n then b ! Suc i else b ! i)"
  proof (intro allI impI)
    fix i assume i: "i < length b" and ne: "i \<noteq> d_first + Suc n"
    with IH(2) have "b' ! i = (if Suc d_first \<le> i \<and> i < Suc d_first + n then b1 ! Suc i else b1 ! i)"
      by (simp add: b1)
    then show "b' ! i = (if d_first \<le> i \<and> i < d_first + Suc n then b ! Suc i else b ! i)"
      using i ne xb Suc.prems(3,4) by (auto simp: b1 nth_list_update)
  qed
  with IH(1) show ?case by (simp add: b1)
qed

lemma never_throwsD:
  assumes "never_throws T"
  shows "copy_ctor T x \<noteq> None" "move_ctor T x \<noteq> None" "copy_asgn T d x \<noteq> None"
    "move_asgn T d x \<noteq> None" "value_ctor T \<noteq> None"
  using assms unfolding never_throws_def by blast+

lemma vector_inv_iff:
  "vector_inv v \<longleftrightarrow>
     length (buffer_m (data_m v)) = capacity_m (data_m v) \<and> size_m v \<le> capacity_m (data_m v)
     \<and> (\<forall>i<capacity_m (data_m v). (buffer_m (data_m v) ! i \<noteq> None) = (i < size_m v))"
proof -
  let ?b = "buffer_m (data_m v)"
  have eq: "(list_all (\<lambda>x. x \<noteq> None) (take (size_m v) ?b) \<and> list_all (\<lambda>x. x = None) (drop (size_m v) ?b))
        = (\<forall>i<length ?b. (?b ! i \<noteq> None) = (i < size_m v))" if "size_m v \<le> length ?b"
  proof
    assume a: "list_all (\<lambda>x. x \<noteq> None) (take (size_m v) ?b) \<and> list_all (\<lambda>x. x = None) (drop (size_m v) ?b)"
    show "\<forall>i<length ?b. (?b ! i \<noteq> None) = (i < size_m v)"
    proof (intro allI impI)
      fix i assume i: "i < length ?b"
      show "(?b ! i \<noteq> None) = (i < size_m v)"
      proof (cases "i < size_m v")
        case True
        with a that have "take (size_m v) ?b ! i \<noteq> None" by (simp add: list_all_length)
        with True show ?thesis by simp
      next
        case False
        from a have "\<forall>n<length (drop (size_m v) ?b). drop (size_m v) ?b ! n = None"
          by (simp add: list_all_length)
        moreover from False i have "i - size_m v < length (drop (size_m v) ?b)" by simp
        ultimately have "drop (size_m v) ?b ! (i - size_m v) = None" by blast
        with False that show ?thesis by simp
      qed
    qed
  next
    assume a: "\<forall>i<length ?b. (?b ! i \<noteq> None) = (i < size_m v)"
    have raw: "?b ! (size_m v + n) = None" if "n < length ?b - size_m v" for n
      using a [rule_format, of "size_m v + n"] that by simp
    have live: "?b ! n \<noteq> None" if "n < size_m v" for n
      using a [rule_format, of n] that \<open>size_m v \<le> length ?b\<close> by simp
    from raw live show "list_all (\<lambda>x. x \<noteq> None) (take (size_m v) ?b) \<and> list_all (\<lambda>x. x = None) (drop (size_m v) ?b)"
      using that by (simp add: list_all_length)
  qed
  show ?thesis
  proof (cases "length ?b = capacity_m (data_m v) \<and> size_m v \<le> capacity_m (data_m v)")
    case True
    then have "size_m v \<le> length ?b" by simp
    from eq [OF this] True show ?thesis unfolding vector_inv_def by simp
  next
    case False
    then show ?thesis unfolding vector_inv_def by blast
  qed
qed

lemma move_loop_returns:
  assumes "never_throws T" and "\<forall>j\<le>n. slot_at b (d_first + j) \<noteq> None" and "first = Suc d_first"
  shows "\<exists>b'. move_loop T b first d_first n = (Inr (), b')"
  using assms
proof (induction n arbitrary: b first d_first)
  case 0
  then show ?case by simp
next
  case (Suc n)
  from Suc.prems(2) have "slot_at b d_first \<noteq> None" "slot_at b (d_first + 1) \<noteq> None"
    by (metis add.right_neutral le0, metis Suc_eq_plus1 le_add2)
  then obtain old x where old: "slot_at b d_first = Some old" and x: "slot_at b first = Some x"
    using Suc.prems(3) by auto
  from never_throwsD(4) [OF Suc.prems(1), of old x] obtain y r where y: "move_asgn T old x = Some (y, r)"
    by (cases "move_asgn T old x") auto
  let ?b1 = "(b[first := Some r])[d_first := Some y]"
  have step: "move_assign_slot T b d_first first = (Inr (), ?b1)"
    by (simp add: move_assign_slot_def old x y)
  have "\<forall>j\<le>n. slot_at ?b1 (Suc d_first + j) \<noteq> None"
  proof (intro allI impI)
    fix j assume "j \<le> n"
    with Suc.prems(2) have "slot_at b (d_first + Suc j) \<noteq> None" by (meson Suc_le_mono)
    then show "slot_at ?b1 (Suc d_first + j) \<noteq> None"
      by (auto simp: slot_at_update)
  qed
  from Suc.IH [OF Suc.prems(1) this] Suc.prems(3) step show ?case by simp
qed

section \<open>Erase\<close>

lemma Erase_buffer:
  assumes inv: "vector_inv v" and pos: "pos < size_m v" and vp: "value_preserving T"
    and run: "Erase T pos v = (Inr r, v')"
  shows "r = pos \<and> size_m v' = size_m v - 1 \<and> capacity_m (data_m v') = capacity_m (data_m v)
    \<and> length (buffer_m (data_m v')) = length (buffer_m (data_m v))
    \<and> (\<forall>i<length (buffer_m (data_m v)). buffer_m (data_m v') ! i =
          (if i < pos then buffer_m (data_m v) ! i
           else if i < size_m v - 1 then buffer_m (data_m v) ! Suc i
           else None))"
proof -
  let ?b = "buffer_m (data_m v)"
  let ?n = "size_m v - (pos + 1)"
  from inv have len: "length ?b = capacity_m (data_m v)" and le: "size_m v \<le> capacity_m (data_m v)"
    and slots: "\<forall>i<capacity_m (data_m v). (?b ! i \<noteq> None) = (i < size_m v)"
    by (simp_all add: vector_inv_iff)
  from run pos obtain b1 where loop: "move_loop T ?b (pos + 1) pos ?n = (Inr (), b1)"
    and pop: "PopBack (with_buffer v b1) = (Inr (), v')" and r: "r = pos"
    by (auto simp: Erase_def std_move_def Let_def split: prod.splits sum.splits if_splits)
  from pos le len have bound: "pos + 1 + ?n \<le> length ?b" by simp
  from move_loop_spec [OF loop vp _ bound]
  have b1: "length b1 = length ?b"
    "\<forall>i<length ?b. i \<noteq> pos + ?n \<longrightarrow> b1 ! i = (if pos \<le> i \<and> i < pos + ?n then ?b ! Suc i else ?b ! i)"
    by auto
  from pop pos have v': "v' = (with_buffer v (destroy_n b1 (size_m v - 1) 1))\<lparr>size_m := size_m v - 1\<rparr>"
    by (auto simp: PopBack_def with_buffer_def split: if_splits)
  have "buffer_m (data_m v') ! i =
          (if i < pos then ?b ! i else if i < size_m v - 1 then ?b ! Suc i else None)"
    if i: "i < length ?b" for i
  proof (cases "i = size_m v - 1")
    case True
    with pos have "\<not> i < pos" "\<not> i < size_m v - 1" by simp_all
    with True i b1(1) show ?thesis by (simp add: v' with_buffer_def nth_destroy_n)
  next
    case False
    with pos have "i \<noteq> pos + ?n" by simp
    with b1(2) i have "b1 ! i = (if pos \<le> i \<and> i < pos + ?n then ?b ! Suc i else ?b ! i)" by blast
    moreover have "?b ! i = None" if "size_m v \<le> i" using slots i len that by auto
    ultimately show ?thesis using False i b1(1) pos
      by (auto simp: v' with_buffer_def nth_destroy_n)
  qed
  then show ?thesis using r b1(1) by (simp add: v' with_buffer_def)
qed

lemma Erase_inv:
  assumes inv: "vector_inv v" and pos: "pos < size_m v" and vp: "value_preserving T"
    and run: "Erase T pos v = (Inr r, v')"
  shows "vector_inv v'"
proof -
  let ?b = "buffer_m (data_m v)"
  from inv have len: "length ?b = capacity_m (data_m v)" and le: "size_m v \<le> capacity_m (data_m v)"
    and slots: "\<forall>i<capacity_m (data_m v). (?b ! i \<noteq> None) = (i < size_m v)"
    by (simp_all add: vector_inv_iff)
  from Erase_buffer [OF assms]
  have e: "size_m v' = size_m v - 1" "capacity_m (data_m v') = capacity_m (data_m v)"
    "length (buffer_m (data_m v')) = length ?b"
    "\<forall>i<length ?b. buffer_m (data_m v') ! i =
          (if i < pos then ?b ! i else if i < size_m v - 1 then ?b ! Suc i else None)"
    by blast+
  have "(buffer_m (data_m v') ! i \<noteq> None) = (i < size_m v')" if "i < capacity_m (data_m v')" for i
  proof -
    from that e len
    have eq: "buffer_m (data_m v') ! i =
          (if i < pos then ?b ! i else if i < size_m v - 1 then ?b ! Suc i else None)"
      by simp
    show ?thesis
    proof (cases "i < size_m v - 1")
      case True
      with le have "i < capacity_m (data_m v)" "Suc i < capacity_m (data_m v)" by simp_all
      with slots True have "?b ! i \<noteq> None" "?b ! Suc i \<noteq> None" by simp_all
      with eq True e(1) show ?thesis by simp
    next
      case False
      with pos have "\<not> i < pos" by simp
      with eq False e(1) show ?thesis by simp
    qed
  qed
  with e len le show ?thesis by (simp add: vector_inv_iff)
qed

lemma Erase_elements:
  assumes inv: "vector_inv v" and pos: "pos < size_m v" and vp: "value_preserving T"
    and run: "Erase T pos v = (Inr r, v')"
  shows "elements v' = take pos (elements v) @ drop (Suc pos) (elements v)"
proof -
  let ?b = "buffer_m (data_m v)"
  from inv have len: "length ?b = capacity_m (data_m v)" and le: "size_m v \<le> capacity_m (data_m v)"
    by (simp_all add: vector_inv_iff)
  from Erase_buffer [OF assms]
  have e: "size_m v' = size_m v - 1" 
    "length (buffer_m (data_m v')) = length ?b"
    "\<forall>i<length ?b. buffer_m (data_m v') ! i =
          (if i < pos then ?b ! i else if i < size_m v - 1 then ?b ! Suc i else None)"
    by blast+
  show ?thesis
  proof (rule nth_equalityI)
    show "length (elements v') = length (take pos (elements v) @ drop (Suc pos) (elements v))"
      using e len le pos by (simp add: elements_def)
  next
    fix i assume "i < length (elements v')"
    then have i: "i < size_m v - 1" using e len le by (simp add: elements_def)
    with e(3) len le have "buffer_m (data_m v') ! i = (if i < pos then ?b ! i else ?b ! Suc i)"
      by simp
    with i pos len le e(1) show "elements v' ! i = (take pos (elements v) @ drop (Suc pos) (elements v)) ! i"
      by (simp add: elements_def nth_append)
  qed
qed

lemma Erase_returns:
  assumes inv: "vector_inv v" and pos: "pos < size_m v" and nt: "never_throws T"
  shows "\<exists>v'. Erase T pos v = (Inr pos, v')"
proof -
  let ?b = "buffer_m (data_m v)"
  let ?n = "size_m v - (pos + 1)"
  from inv have len: "length ?b = capacity_m (data_m v)" and le: "size_m v \<le> capacity_m (data_m v)"
    and slots: "\<forall>i<capacity_m (data_m v). (?b ! i \<noteq> None) = (i < size_m v)"
    by (simp_all add: vector_inv_iff)
  have "\<forall>j\<le>?n. slot_at ?b (pos + j) \<noteq> None"
    using slots len le pos by (auto simp: slot_at_def)
  from move_loop_returns [OF nt this, of "pos + 1"] obtain b1
    where "move_loop T ?b (pos + 1) pos ?n = (Inr (), b1)" by auto
  with pos show ?thesis
    by (simp add: Erase_def std_move_def PopBack_def with_buffer_def)
qed

text \<open>
  C7. On a vector that satisfies the invariant, with a position \<open>pos\<close> in \<^verbatim>\<open>[begin, end)\<close>
  and a value-preserving element type, an \<^verbatim>\<open>Erase(pos)\<close> that returns has decremented the
  size by one; the elements before \<open>pos\<close> are unchanged and each element after \<open>pos\<close> has
  moved one slot towards it, in order; the returned iterator is \<open>pos\<close>, which is the
  element that followed the erased one, or \<^verbatim>\<open>end()\<close> when the last element was erased.
  \<^verbatim>\<open>Erase\<close> returns whenever the element type never throws.
\<close>

theorem Erase_shifts_tail:
  assumes "vector_inv v" and "pos < Size v" and "value_preserving T"
  shows "(Erase T pos v = (Inr r, v') \<longrightarrow>
            Suc (Size v') = Size v
          \<and> (\<forall>i<pos. Vector_index v' i = Vector_index v i)
          \<and> (\<forall>i. pos \<le> i \<and> i < Size v' \<longrightarrow> Vector_index v' i = Vector_index v (Suc i))
          \<and> elements v' = take pos (elements v) @ drop (Suc pos) (elements v)
          \<and> r = pos
          \<and> (Suc pos = Size v \<longrightarrow> r = Size v')
          \<and> Capacity v' = Capacity v
          \<and> vector_inv v')
         \<and> (never_throws T \<longrightarrow> (\<exists>v1. Erase T pos v = (Inr pos, v1)))"
proof (intro conjI impI)
  assume nt: "never_throws T"
  from assms(1,2) nt show "\<exists>v1. Erase T pos v = (Inr pos, v1)"
    by (simp add: Erase_returns Size_def)
next
  assume run: "Erase T pos v = (Inr r, v')"
  let ?b = "buffer_m (data_m v)"
  from assms(2) have pos: "pos < size_m v" by (simp add: Size_def)
  from assms(1) have len: "length ?b = capacity_m (data_m v)" and le: "size_m v \<le> capacity_m (data_m v)"
    by (simp_all add: vector_inv_iff)
  from Erase_buffer [OF assms(1) pos assms(3) run]
  have e: "r = pos" "size_m v' = size_m v - 1" "capacity_m (data_m v') = capacity_m (data_m v)"
    "length (buffer_m (data_m v')) = length ?b"
    "\<forall>i<length ?b. buffer_m (data_m v') ! i =
          (if i < pos then ?b ! i else if i < size_m v - 1 then ?b ! Suc i else None)"
    by blast+
  show "Suc (Size v') = Size v" using e(2) pos by (simp add: Size_def)
  show "r = pos" by (rule e(1))
  show "r = Size v'" if "Suc pos = Size v" using that e(1,2) by (simp add: Size_def)
  show "Capacity v' = Capacity v" using e(3) by (simp add: Capacity_def RawMemory_Capacity_def)
  show "vector_inv v'" by (rule Erase_inv [OF assms(1) pos assms(3) run])
  show "elements v' = take pos (elements v) @ drop (Suc pos) (elements v)"
    by (rule Erase_elements [OF assms(1) pos assms(3) run])
  show "\<forall>i<pos. Vector_index v' i = Vector_index v i"
  proof (intro allI impI)
    fix i assume i: "i < pos"
    with pos le len have "i < size_m v - 1" "i < size_m v" "i < length ?b" by simp_all
    with e i show "Vector_index v' i = Vector_index v i"
      using len le by (simp add: Vector_index_def slot_at_def)
  qed
  show "\<forall>i. pos \<le> i \<and> i < Size v' \<longrightarrow> Vector_index v' i = Vector_index v (Suc i)"
  proof (intro allI impI)
    fix i assume "pos \<le> i \<and> i < Size v'"
    then have i: "pos \<le> i" "i < size_m v - 1" using e(2) by (simp_all add: Size_def)
    with le len have "Suc i < size_m v" "Suc i < length ?b" "i < length ?b" by simp_all
    with e i show "Vector_index v' i = Vector_index v (Suc i)"
      using len le by (simp add: Vector_index_def slot_at_def)
  qed
qed

lemma value_preserving_arithmetic_type: "value_preserving (arithmetic_type m)"
  by (simp add: value_preserving_def arithmetic_type_def)

lemma never_throws_arithmetic_type: "never_throws (arithmetic_type m)"
  by (simp add: never_throws_def arithmetic_type_def)

theorem Erase_shifts_tail_witness:
  "vector_inv (vector_of [1, 5, 2, 3 :: int] 1)
   \<and> 1 < Size (vector_of [1, 5, 2, 3 :: int] 1)
   \<and> value_preserving (arithmetic_type 100)
   \<and> Erase (arithmetic_type 100) 1 (vector_of [1, 5, 2, 3] 1) = (Inr 1, vector_of [1, 2, 3] 2)
   \<and> elements (vector_of [1, 2, 3 :: int] 2)
       = take 1 (elements (vector_of [1, 5, 2, 3] 1)) @ drop (Suc 1) (elements (vector_of [1, 5, 2, 3] 1))
   \<and> vector_inv (vector_of [1, 2, 3 :: int] 2)"
proof -
  have inv: "vector_inv (vector_of [1, 5, 2, 3 :: int] 1)"
    by (simp add: vector_inv_def vector_of_def)
  have pos: "1 < Size (vector_of [1, 5, 2, 3 :: int] 1)"
    by (simp add: Size_def vector_of_def)
  have run: "Erase (arithmetic_type 100) 1 (vector_of [1, 5, 2, 3] 1) = (Inr 1, vector_of [1, 2, 3] 2)"
    by (simp add: vector_eval arithmetic_type_def)
  from Erase_shifts_tail [OF inv pos value_preserving_arithmetic_type, of 100 1 "vector_of [1, 2, 3] 2"] run
  have "elements (vector_of [1, 2, 3 :: int] 2)
       = take 1 (elements (vector_of [1, 5, 2, 3] 1)) @ drop (Suc 1) (elements (vector_of [1, 5, 2, 3] 1))"
    and "vector_inv (vector_of [1, 2, 3 :: int] 2)"
    by blast+
  with inv pos run value_preserving_arithmetic_type show ?thesis by blast
qed

section \<open>Copy construction and copy assignment\<close>

lemma uninitialized_copy_loop_returns:
  assumes "never_throws T" and "\<forall>j<n. slot_at src (from + j) \<noteq> None"
  shows "\<exists>dst'. uninitialized_copy_loop T src from dst first cur n = (Inr (), dst')"
  using assms
proof (induction n arbitrary: "from" dst cur)
  case 0
  then show ?case by simp
next
  case (Suc n)
  from Suc.prems(2) have "slot_at src (from + 0) \<noteq> None" by blast
  then obtain x where x: "slot_at src from = Some x" by auto
  from never_throwsD(1) [OF Suc.prems(1), of x] obtain y where y: "copy_ctor T x = Some y"
    by auto
  have "\<forall>j<n. slot_at src (Suc from + j) \<noteq> None"
    using Suc.prems(2) by (metis Suc_less_eq add_Suc_right add_Suc)
  from Suc.IH [OF Suc.prems(1) this] x y show ?case by simp
qed

lemma uninitialized_move_loop_returns_all:
  assumes "never_throws T" and "\<forall>j<n. slot_at src (from + j) \<noteq> None"
  shows "\<exists>src' dst'. uninitialized_move_loop T src from dst first cur n = (Inr (), src', dst')"
  using assms
proof (induction n arbitrary: src "from" dst cur)
  case 0
  then show ?case by simp
next
  case (Suc n)
  from Suc.prems(2) have "slot_at src (from + 0) \<noteq> None" by blast
  then obtain x where x: "slot_at src from = Some x" by auto
  from never_throwsD(2) [OF Suc.prems(1), of x] obtain y r where y: "move_ctor T x = Some (y, r)"
    by auto
  have "\<forall>j<n. slot_at (src[from := Some r]) (Suc from + j) \<noteq> None"
  proof (intro allI impI)
    fix j assume "j < n"
    with Suc.prems(2) have "slot_at src (from + Suc j) \<noteq> None" by (meson Suc_less_eq)
    then show "slot_at (src[from := Some r]) (Suc from + j) \<noteq> None"
      by (simp add: slot_at_update)
  qed
  from Suc.IH [OF Suc.prems(1) this] x y show ?case by simp
qed

lemma copy_n_returns:
  assumes "never_throws T" and "\<forall>j<n. slot_at src (from + j) \<noteq> None"
    and "\<forall>j<n. slot_at dst (to + j) \<noteq> None"
  shows "\<exists>dst'. copy_n T src from n dst to = (Inr (), dst')"
  using assms
proof (induction n arbitrary: "from" dst to)
  case 0
  then show ?case by simp
next
  case (Suc n)
  from Suc.prems(2) have "slot_at src (from + 0) \<noteq> None" by blast
  then obtain x where x: "slot_at src from = Some x" by auto
  from Suc.prems(3) have "slot_at dst (to + 0) \<noteq> None" by blast
  then obtain d where d: "slot_at dst to = Some d" by auto
  from never_throwsD(3) [OF Suc.prems(1), of d x] obtain y where y: "copy_asgn T d x = Some y"
    by auto
  have src: "\<forall>j<n. slot_at src (Suc from + j) \<noteq> None"
    using Suc.prems(2) by (metis Suc_less_eq add_Suc_right add_Suc)
  have dst: "\<forall>j<n. slot_at (dst[to := Some y]) (Suc to + j) \<noteq> None"
  proof (intro allI impI)
    fix j assume "j < n"
    with Suc.prems(3) have "slot_at dst (to + Suc j) \<noteq> None" by (meson Suc_less_eq)
    then show "slot_at (dst[to := Some y]) (Suc to + j) \<noteq> None"
      by (simp add: slot_at_update)
  qed
  from Suc.IH [OF Suc.prems(1) src dst] x d y show ?case by simp
qed

lemma RawMemory_sized_Inr:
  "RawMemory_sized T n = Inr d \<Longrightarrow> d = \<lparr>buffer_m = replicate n None, capacity_m = n\<rparr>"
  by (auto simp: RawMemory_sized_def Allocate_def split: if_splits)

lemma RawMemory_sized_returns:
  "n = 0 \<or> can_allocate T n \<Longrightarrow> RawMemory_sized T n = Inr \<lparr>buffer_m = replicate n None, capacity_m = n\<rparr>"
  by (auto simp: RawMemory_sized_def Allocate_def)

lemma vector_inv_slots:
  assumes "vector_inv v"
  shows "length (buffer_m (data_m v)) = capacity_m (data_m v)"
    and "size_m v \<le> capacity_m (data_m v)"
    and "i < size_m v \<Longrightarrow> buffer_m (data_m v) ! i \<noteq> None"
    and "i < size_m v \<Longrightarrow> slot_at (buffer_m (data_m v)) i \<noteq> None"
    and "size_m v \<le> i \<Longrightarrow> i < capacity_m (data_m v) \<Longrightarrow> buffer_m (data_m v) ! i = None"
  using assms by (auto simp: vector_inv_iff slot_at_def)

lemma Vector_copy_ctor_spec:
  assumes inv: "vector_inv other" and vp: "value_preserving T"
    and run: "Vector_copy_ctor T other = Inr c"
  shows "size_m c = size_m other \<and> capacity_m (data_m c) = size_m other
     \<and> buffer_m (data_m c) = take (size_m other) (buffer_m (data_m other))"
proof -
  let ?n = "size_m other" and ?src = "buffer_m (data_m other)"
  from run obtain d b where d: "RawMemory_sized T ?n = Inr d"
    and loop: "uninitialized_copy_n T ?src 0 ?n (buffer_m d) 0 = (Inr (), b)"
    and c: "c = \<lparr>data_m = d\<lparr>buffer_m := b\<rparr>, size_m = ?n\<rparr>"
    by (auto simp: Vector_copy_ctor_def split: sum.splits prod.splits)
  from RawMemory_sized_Inr [OF d] have d': "d = \<lparr>buffer_m = replicate ?n None, capacity_m = ?n\<rparr>" .
  from loop have "uninitialized_copy_loop T ?src 0 (replicate ?n None) 0 0 ?n = (Inr (), b)"
    by (simp add: uninitialized_copy_n_def d')
  from uninitialized_copy_loop_spec [OF this vp]
  have b: "length b = ?n" "\<forall>i<?n. b ! i = slot_at ?src i" by auto
  have "b = take ?n ?src"
  proof (rule nth_equalityI)
    show "length b = length (take ?n ?src)"
      using b(1) vector_inv_slots(1,2) [OF inv] by simp
  next
    fix i assume "i < length b"
    with b vector_inv_slots(1,2) [OF inv] show "b ! i = take ?n ?src ! i"
      by (simp add: slot_at_def)
  qed
  with c d' show ?thesis by simp
qed

lemma Vector_copy_ctor_returns:
  assumes inv: "vector_inv other" and nt: "never_throws T"
    and mem: "size_m other = 0 \<or> can_allocate T (size_m other)"
  shows "\<exists>c. Vector_copy_ctor T other = Inr c"
proof -
  let ?n = "size_m other" and ?src = "buffer_m (data_m other)"
  have "\<forall>j<?n. slot_at ?src (0 + j) \<noteq> None"
    using vector_inv_slots(4) [OF inv] by simp
  from uninitialized_copy_loop_returns [OF nt this, of "replicate ?n None" 0 0]
  obtain b where "uninitialized_copy_loop T ?src 0 (replicate ?n None) 0 0 ?n = (Inr (), b)"
    by blast
  then show ?thesis
    by (simp add: Vector_copy_ctor_def RawMemory_sized_returns [OF mem] uninitialized_copy_n_def)
qed

lemma Vector_copy_assign_swap_path:
  assumes "this \<noteq> rhs" and "size_m (s rhs) > capacity_m (data_m (s this))"
  shows "Vector_copy_assign T this rhs s =
     (case Vector_copy_ctor T (s rhs) of
        Inl e \<Rightarrow> (Inl e, s)
      | Inr rhs_copy \<Rightarrow> (Inr (), s(this := rhs_copy)))"
proof -
  have "(Swap this (Suc (max this rhs)) (s(Suc (max this rhs) := c)))(Suc (max this rhs) := s (Suc (max this rhs)))
        = s(this := c)" for c
    by (auto simp: Swap_eq fun_eq_iff)
  with assms show ?thesis
    by (simp add: Vector_copy_assign_def Let_def split: sum.splits)
qed

lemma Vector_copy_assign_in_place:
  assumes ne: "this \<noteq> rhs" and fits: "size_m (s rhs) \<le> capacity_m (data_m (s this))"
    and invA: "vector_inv (s this)" and invR: "vector_inv (s rhs)" and vp: "value_preserving T"
    and run: "Vector_copy_assign T this rhs s = (Inr u, s')"
  shows "\<exists>b. s' = s(this := (with_buffer (s this) b)\<lparr>size_m := size_m (s rhs)\<rparr>)
     \<and> length b = capacity_m (data_m (s this))
     \<and> (\<forall>i<capacity_m (data_m (s this)).
           b ! i = (if i < size_m (s rhs) then buffer_m (data_m (s rhs)) ! i else None))"
proof -
  let ?A = "s this" and ?R = "s rhs"
  let ?a = "buffer_m (data_m ?A)" and ?r = "buffer_m (data_m ?R)"
  let ?m = "min (size_m ?A) (size_m ?R)"
  note A = vector_inv_slots [OF invA] and R = vector_inv_slots [OF invR]
  from run ne fits obtain b1 where c1: "copy_n T ?r 0 ?m ?a 0 = (Inr (), b1)"
    by (auto simp: Vector_copy_assign_def split: prod.splits sum.splits if_splits)
  have "0 + ?m \<le> length ?a" using A(1,2) by simp
  from copy_n_spec [OF c1 vp this]
  have b1: "length b1 = length ?a"
    "\<forall>i<length ?a. b1 ! i = (if i < ?m then slot_at ?r i else ?a ! i)"
    by auto
  have rslot: "slot_at ?r i = ?r ! i" if "i < size_m ?R" for i
    using that R(1,2) by (simp add: slot_at_def)
  show ?thesis
  proof (cases "size_m ?R < size_m ?A")
    case True
    let ?b = "destroy_n b1 (size_m ?R) (size_m ?A - size_m ?R)"
    from run ne fits c1 True
    have s': "s' = s(this := (with_buffer ?A ?b)\<lparr>size_m := size_m ?R\<rparr>)"
      by (auto simp: Vector_copy_assign_def split: prod.splits sum.splits if_splits)
    have "?b ! i = (if i < size_m ?R then ?r ! i else None)" if i: "i < capacity_m (data_m ?A)" for i
    proof (cases "i < size_m ?R")
      case lt: True
      with True i b1 A(1) rslot [of i] show ?thesis by (simp add: nth_destroy_n)
    next
      case ge: False
      show ?thesis
      proof (cases "i < size_m ?A")
        case True
        with ge i b1 A(1) show ?thesis by (simp add: nth_destroy_n)
      next
        case False
        with A(5) [of i] i have "?a ! i = None" by simp
        with False ge True i b1 A(1) show ?thesis by (simp add: nth_destroy_n)
      qed
    qed
    with s' b1(1) A(1) show ?thesis by auto
  next
    case False
    let ?k = "size_m ?R - size_m ?A"
    from run ne fits c1 False obtain b2
      where c2: "uninitialized_copy_n T ?r (size_m ?A) ?k b1 (size_m ?A) = (Inr (), b2)"
        and s': "s' = s(this := (with_buffer ?A b2)\<lparr>size_m := size_m ?R\<rparr>)"
      by (auto simp: Vector_copy_assign_def split: prod.splits sum.splits if_splits)
    from c2 have loop: "uninitialized_copy_loop T ?r (size_m ?A) b1 (size_m ?A) (size_m ?A) ?k = (Inr (), b2)"
      by (simp add: uninitialized_copy_n_def)
    have "size_m ?A + ?k \<le> length b1" using False fits b1(1) A(1) by simp
    from uninitialized_copy_loop_spec [OF loop vp this]
    have b2: "length b2 = length b1"
      "\<forall>i<length b1. b2 ! i = (if size_m ?A \<le> i \<and> i < size_m ?A + ?k
          then slot_at ?r (size_m ?A + (i - size_m ?A)) else b1 ! i)"
      by auto
    have "b2 ! i = (if i < size_m ?R then ?r ! i else None)" if i: "i < capacity_m (data_m ?A)" for i
    proof (cases "i < size_m ?A")
      case True
      with False i b1 b2 A(1) rslot [of i] show ?thesis by simp
    next
      case ge: False
      show ?thesis
      proof (cases "i < size_m ?R")
        case True
        with ge False i b1(1) b2 A(1) rslot [of i] show ?thesis by simp
      next
        case nR: False
        with A(5) [of i] ge i have "?a ! i = None" by simp
        with nR ge False i b1 b2 A(1) show ?thesis by simp
      qed
    qed
    with s' b1(1) b2(1) A(1) show ?thesis by auto
  qed
qed

lemma Vector_copy_assign_in_place_returns:
  assumes ne: "this \<noteq> rhs" and fits: "size_m (s rhs) \<le> capacity_m (data_m (s this))"
    and invA: "vector_inv (s this)" and invR: "vector_inv (s rhs)" and nt: "never_throws T"
  shows "\<exists>s'. Vector_copy_assign T this rhs s = (Inr (), s')"
proof -
  let ?A = "s this" and ?R = "s rhs"
  let ?a = "buffer_m (data_m ?A)" and ?r = "buffer_m (data_m ?R)"
  let ?m = "min (size_m ?A) (size_m ?R)"
  note A = vector_inv_slots [OF invA] and R = vector_inv_slots [OF invR]
  have "\<forall>j<?m. slot_at ?r (0 + j) \<noteq> None" using R(4) by simp
  moreover have "\<forall>j<?m. slot_at ?a (0 + j) \<noteq> None" using A(4) by simp
  ultimately obtain b1 where c1: "copy_n T ?r 0 ?m ?a 0 = (Inr (), b1)"
    using copy_n_returns [OF nt, of ?m ?r 0 ?a 0] by blast
  have "\<forall>j<size_m ?R - size_m ?A. slot_at ?r (size_m ?A + j) \<noteq> None"
    using R(4) by simp
  from uninitialized_copy_loop_returns [OF nt this, of b1 "size_m ?A" "size_m ?A"]
  obtain b2 where "uninitialized_copy_loop T ?r (size_m ?A) b1 (size_m ?A) (size_m ?A)
      (size_m ?R - size_m ?A) = (Inr (), b2)" by blast
  with c1 ne fits show ?thesis
    by (simp add: Vector_copy_assign_def uninitialized_copy_n_def)
qed

lemma Vector_copy_assign_result:
  assumes invA: "vector_inv (s this)" and invR: "vector_inv (s rhs)" and vp: "value_preserving T"
    and run: "Vector_copy_assign T this rhs s = (Inr u, s')"
  shows "size_m (s' this) = size_m (s rhs) \<and> elements (s' this) = elements (s rhs)
     \<and> vector_inv (s' this) \<and> (\<forall>a. a \<noteq> this \<longrightarrow> s' a = s a)"
proof (cases "this = rhs")
  case True
  with run have "s' = s" by (simp add: Vector_copy_assign_def)
  with True invA show ?thesis by simp
next
  case ne: False
  note R = vector_inv_slots [OF invR]
  let ?r = "buffer_m (data_m (s rhs))" and ?n = "size_m (s rhs)"
  show ?thesis
  proof (cases "size_m (s rhs) > capacity_m (data_m (s this))")
    case True
    from run Vector_copy_assign_swap_path [OF ne True, of T]
    obtain c where c: "Vector_copy_ctor T (s rhs) = Inr c" and s': "s' = s(this := c)"
      by (auto split: sum.splits)
    from Vector_copy_ctor_spec [OF invR vp c]
    have cs: "size_m c = ?n" "capacity_m (data_m c) = ?n" "buffer_m (data_m c) = take ?n ?r"
      by blast+
    have "vector_inv c"
      using cs R(1,2,3) by (simp add: vector_inv_iff)
    moreover have "elements c = elements (s rhs)"
      using cs by (simp add: elements_def)
    ultimately show ?thesis using cs(1) by (simp add: s')
  next
    case False
    then have fits: "?n \<le> capacity_m (data_m (s this))" by simp
    from Vector_copy_assign_in_place [OF ne fits invA invR vp run]
    obtain b where s': "s' = s(this := (with_buffer (s this) b)\<lparr>size_m := ?n\<rparr>)"
      and len: "length b = capacity_m (data_m (s this))"
      and slots: "\<forall>i<capacity_m (data_m (s this)). b ! i = (if i < ?n then ?r ! i else None)"
      by blast
    let ?v = "(with_buffer (s this) b)\<lparr>size_m := ?n\<rparr>"
    have v: "size_m ?v = ?n" "capacity_m (data_m ?v) = capacity_m (data_m (s this))"
      "buffer_m (data_m ?v) = b"
      by (simp_all add: with_buffer_def)
    have "vector_inv ?v"
      unfolding vector_inv_iff v using len fits slots R(3) by auto
    moreover have "elements ?v = elements (s rhs)"
    proof -
      have "take ?n b = take ?n ?r"
      proof (rule nth_equalityI)
        show "length (take ?n b) = length (take ?n ?r)" using len fits R(1,2) by simp
      next
        fix i assume "i < length (take ?n b)"
        with len fits slots show "take ?n b ! i = take ?n ?r ! i" by simp
      qed
      then show ?thesis by (simp add: elements_def with_buffer_def)
    qed
    ultimately show ?thesis by (simp add: s' with_buffer_def)
  qed
qed

lemma Vector_copy_assign_in_place_frame:
  assumes "this \<noteq> rhs" and "size_m (s rhs) \<le> capacity_m (data_m (s this))"
    and "Vector_copy_assign T this rhs s = (r, s')"
  shows "capacity_m (data_m (s' this)) = capacity_m (data_m (s this))
    \<and> (r \<noteq> Inr () \<longrightarrow> size_m (s' this) = size_m (s this))"
  using assms
  by (auto simp: Vector_copy_assign_def with_buffer_def split: prod.splits sum.splits if_splits)

text \<open>
  C5. Both vectors satisfy the invariant and the element type is value preserving.
  \<^item> A copy assignment \<^verbatim>\<open>a = rhs\<close> that returns leaves \<open>a\<close> with the size and the elements of
    \<open>rhs\<close>, in order, and changes no other vector, \<open>rhs\<close> included.
  \<^item> Assigning a vector to itself returns with the store unchanged.
  \<^item> When \<^verbatim>\<open>rhs.size_\<close> exceeds the capacity of \<open>a\<close>, the outcome is that of copy-constructing
    a temporary from \<open>rhs\<close>: the temporary becomes \<open>a\<close>, and a failure leaves the store as
    it was.
  \<^item> Otherwise the assignment works in the buffer of \<open>a\<close>: the capacity is unchanged, and
    when it fails \<^verbatim>\<open>size_\<close> has not been written.
  \<^item> The assignment returns when the element type never throws and the allocation, where
    one is needed, is granted.
\<close>

theorem copy_assignment:
  assumes "vector_inv (s this)" and "vector_inv (s rhs)" and "value_preserving T"
  shows "(Vector_copy_assign T this rhs s = (Inr u, s') \<longrightarrow>
            Size (s' this) = Size (s rhs) \<and> elements (s' this) = elements (s rhs)
          \<and> s' rhs = s rhs \<and> (\<forall>a. a \<noteq> this \<longrightarrow> s' a = s a) \<and> vector_inv (s' this))
       \<and> (this = rhs \<longrightarrow> Vector_copy_assign T this rhs s = (Inr (), s))
       \<and> (this \<noteq> rhs \<and> Size (s rhs) > Capacity (s this) \<longrightarrow>
            Vector_copy_assign T this rhs s =
              (case Vector_copy_ctor T (s rhs) of
                 Inl e \<Rightarrow> (Inl e, s)
               | Inr rhs_copy \<Rightarrow> (Inr (), s(this := rhs_copy))))
       \<and> (this \<noteq> rhs \<and> Size (s rhs) \<le> Capacity (s this) \<longrightarrow>
            Capacity (snd (Vector_copy_assign T this rhs s) this) = Capacity (s this)
          \<and> (fst (Vector_copy_assign T this rhs s) \<noteq> Inr () \<longrightarrow>
               Size (snd (Vector_copy_assign T this rhs s) this) = Size (s this)))
       \<and> (never_throws T \<and> (Size (s rhs) > Capacity (s this) \<longrightarrow> can_allocate T (Size (s rhs))) \<longrightarrow>
            (\<exists>s1. Vector_copy_assign T this rhs s = (Inr (), s1)))"
proof (intro conjI impI)
  assume run: "Vector_copy_assign T this rhs s = (Inr u, s')"
  from Vector_copy_assign_result [OF assms run]
  have r: "size_m (s' this) = size_m (s rhs)" "elements (s' this) = elements (s rhs)"
    "vector_inv (s' this)" "\<forall>a. a \<noteq> this \<longrightarrow> s' a = s a"
    by blast+
  show "Size (s' this) = Size (s rhs)" using r(1) by (simp add: Size_def)
  show "elements (s' this) = elements (s rhs)" by (rule r(2))
  show "vector_inv (s' this)" by (rule r(3))
  show "\<forall>a. a \<noteq> this \<longrightarrow> s' a = s a" by (rule r(4))
  show "s' rhs = s rhs"
  proof (cases "this = rhs")
    case True
    with run show ?thesis by (simp add: Vector_copy_assign_def)
  next
    case False
    with r(4) show ?thesis by simp
  qed
next
  assume "this = rhs"
  then show "Vector_copy_assign T this rhs s = (Inr (), s)"
    by (simp add: Vector_copy_assign_def)
next
  assume "this \<noteq> rhs \<and> Size (s rhs) > Capacity (s this)"
  then show "Vector_copy_assign T this rhs s =
              (case Vector_copy_ctor T (s rhs) of
                 Inl e \<Rightarrow> (Inl e, s)
               | Inr rhs_copy \<Rightarrow> (Inr (), s(this := rhs_copy)))"
    by (simp add: Vector_copy_assign_swap_path Size_def Capacity_def RawMemory_Capacity_def)
next
  assume a: "this \<noteq> rhs \<and> Size (s rhs) \<le> Capacity (s this)"
  obtain r s1 where run: "Vector_copy_assign T this rhs s = (r, s1)"
    by (cases "Vector_copy_assign T this rhs s")
  from a have "this \<noteq> rhs" "size_m (s rhs) \<le> capacity_m (data_m (s this))"
    by (simp_all add: Size_def Capacity_def RawMemory_Capacity_def)
  from Vector_copy_assign_in_place_frame [OF this run]
  show "Capacity (snd (Vector_copy_assign T this rhs s) this) = Capacity (s this)"
    by (simp add: run Capacity_def RawMemory_Capacity_def)
next
  assume a: "this \<noteq> rhs \<and> Size (s rhs) \<le> Capacity (s this)"
    and failed: "fst (Vector_copy_assign T this rhs s) \<noteq> Inr ()"
  obtain r s1 where run: "Vector_copy_assign T this rhs s = (r, s1)"
    by (cases "Vector_copy_assign T this rhs s")
  from a have "this \<noteq> rhs" "size_m (s rhs) \<le> capacity_m (data_m (s this))"
    by (simp_all add: Size_def Capacity_def RawMemory_Capacity_def)
  from Vector_copy_assign_in_place_frame [OF this run] failed
  show "Size (snd (Vector_copy_assign T this rhs s) this) = Size (s this)"
    by (simp add: run Size_def)
next
  assume a: "never_throws T \<and> (Size (s rhs) > Capacity (s this) \<longrightarrow> can_allocate T (Size (s rhs)))"
  show "\<exists>s1. Vector_copy_assign T this rhs s = (Inr (), s1)"
  proof (cases "this = rhs")
    case True
    then show ?thesis by (simp add: Vector_copy_assign_def)
  next
    case ne: False
    show ?thesis
    proof (cases "size_m (s rhs) > capacity_m (data_m (s this))")
      case True
      with a have "size_m (s rhs) = 0 \<or> can_allocate T (size_m (s rhs))"
        by (simp add: Size_def Capacity_def RawMemory_Capacity_def)
      from Vector_copy_ctor_returns [OF assms(2) _ this] a
      obtain c where "Vector_copy_ctor T (s rhs) = Inr c" by blast
      then show ?thesis by (simp add: Vector_copy_assign_swap_path [OF ne True])
    next
      case False
      then have "size_m (s rhs) \<le> capacity_m (data_m (s this))" by simp
      from Vector_copy_assign_in_place_returns [OF ne this assms(1,2)] a show ?thesis by blast
    qed
  qed
qed

lemma example_store_at:
  "example_store 0 = vector_of [1, 2] 0" "example_store 1 = vector_of [7, 8, 9] 1"
  "example_store (Suc 0) = vector_of [7, 8, 9] 1"
  by (simp_all add: example_store_def)

theorem copy_assignment_witness:
  "vector_inv (example_store 0) \<and> vector_inv (example_store 1) \<and> value_preserving (arithmetic_type 100)
   \<and> Vector_copy_assign (arithmetic_type 100) 0 1 example_store
       = (Inr (), example_store(0 := vector_of [7, 8, 9] 0))
   \<and> elements (vector_of [7, 8, 9 :: int] 0) = elements (example_store 1)
   \<and> Vector_copy_assign (arithmetic_type 100) 1 0 example_store
       = (Inr (), example_store(1 := vector_of [1, 2] 2))
   \<and> elements (vector_of [1, 2 :: int] 2) = elements (example_store 0)
   \<and> Vector_copy_assign (arithmetic_type 100) 0 0 example_store = (Inr (), example_store)"
proof -
  have inv0: "vector_inv (example_store 0)" and inv1: "vector_inv (example_store 1)"
    by (simp_all add: example_store_at vector_inv_def vector_of_def)
  have grow: "Vector_copy_assign (arithmetic_type 100) 0 1 example_store
       = (Inr (), example_store(0 := vector_of [7, 8, 9] 0))"
    by (simp add: Vector_copy_assign_swap_path Vector_copy_ctor_def example_store_at vector_eval arithmetic_type_def)
  have shrink: "Vector_copy_assign (arithmetic_type 100) 1 0 example_store
       = (Inr (), example_store(1 := vector_of [1, 2] 2))"
    by (simp add: Vector_copy_assign_def example_store_at vector_eval arithmetic_type_def)
  from copy_assignment [where s = example_store and this = 0 and rhs = 1 and T = "arithmetic_type 100"
      and u = "()" and s' = "example_store(0 := vector_of [7, 8, 9] 0)",
      OF inv0 inv1 value_preserving_arithmetic_type] grow
  have e1: "elements (vector_of [7, 8, 9 :: int] 0) = elements (example_store 1)"
    by simp
  from copy_assignment [where s = example_store and this = 1 and rhs = 0 and T = "arithmetic_type 100"
      and u = "()" and s' = "example_store(1 := vector_of [1, 2] 2)",
      OF inv1 inv0 value_preserving_arithmetic_type] shrink
  have e2: "elements (vector_of [1, 2 :: int] 2) = elements (example_store 0)"
    by simp
  from copy_assignment [where s = example_store and this = 0 and rhs = 0 and T = "arithmetic_type 100",
      OF inv0 inv0 value_preserving_arithmetic_type]
  have self: "Vector_copy_assign (arithmetic_type 100) 0 0 example_store = (Inr (), example_store)"
    by simp
  from inv0 inv1 grow shrink e1 e2 self value_preserving_arithmetic_type show ?thesis by blast
qed

section \<open>Insertion at the end, and sequences of PushBack\<close>

lemma to_int_small: "n < 2 ^ 31 \<Longrightarrow> to_int n = int n"
  by (simp add: to_int_def Let_def)

lemma UninitializedMoveOrCopy_spec:
  assumes vp: "value_preserving T" and nt: "never_throws T"
    and live: "\<forall>j<n. slot_at src (from + j) \<noteq> None" and fits: "to + n \<le> length dst"
  shows "\<exists>src' dst'. UninitializedMoveOrCopy T src from (int n) dst to = (Inr (), src', dst')
     \<and> length src' = length src \<and> length dst' = length dst
     \<and> (\<forall>i<length dst. dst' ! i =
           (if to \<le> i \<and> i < to + n then slot_at src (from + (i - to)) else dst ! i))"
proof (cases "is_nothrow_move_constructible T \<or> \<not> is_copy_constructible T")
  case True
  from uninitialized_move_loop_returns_all [OF nt live, of dst to to]
  obtain src' dst' where run: "uninitialized_move_loop T src from dst to to n = (Inr (), src', dst')"
    by blast
  from uninitialized_move_loop_spec [OF run vp fits]
  have "length src' = length src" "length dst' = length dst"
    "\<forall>i<length dst. dst' ! i =
           (if to \<le> i \<and> i < to + n then slot_at src (from + (i - to)) else dst ! i)"
    by blast+
  moreover from True run
  have "UninitializedMoveOrCopy T src from (int n) dst to = (Inr (), src', dst')"
    by (auto simp: UninitializedMoveOrCopy_def uninitialized_move_n_def)
  ultimately show ?thesis by blast
next
  case False
  from uninitialized_copy_loop_returns [OF nt live, of dst to to]
  obtain dst' where run: "uninitialized_copy_loop T src from dst to to n = (Inr (), dst')"
    by blast
  from uninitialized_copy_loop_spec [OF run vp fits]
  have "length dst' = length dst"
    "\<forall>i<length dst. dst' ! i =
           (if to \<le> i \<and> i < to + n then slot_at src (from + (i - to)) else dst ! i)"
    by blast+
  moreover from False run
  have "UninitializedMoveOrCopy T src from (int n) dst to = (Inr (), src, dst')"
    by (auto simp: UninitializedMoveOrCopy_def uninitialized_copy_n_def)
  ultimately show ?thesis by blast
qed

lemma UninitializedMoveOrCopy_none:
  "k \<le> 0 \<Longrightarrow> UninitializedMoveOrCopy T src from k dst to = (Inr (), src, dst)"
  by (simp add: UninitializedMoveOrCopy_def uninitialized_move_n_def uninitialized_copy_n_def)

lemma outside_value_Lvalue: "outside_value (Lvalue x) = Some x"
  by (simp add: outside_value_def)

lemma forward_construct_value:
  assumes "value_preserving T" and "never_throws T" and "outside_value a = Some y"
  shows "forward_construct T a = independent_ctor (Some y)"
proof (rule ext)
  fix b
  show "forward_construct T a b = independent_ctor (Some y) b"
  proof (cases a)
    case (Lvalue x)
    from never_throwsD(1) [OF assms(2), of x] obtain z where "copy_ctor T x = Some z" by auto
    with value_preservingD(1) [OF assms(1), of x z] Lvalue assms(3) show ?thesis
      by (simp add: forward_construct_def outside_value_def)
  next
    case (Rvalue x)
    from never_throwsD(2) [OF assms(2), of x] obtain z r where "move_ctor T x = Some (z, r)" by auto
    with value_preservingD(2) [OF assms(1), of x z r] Rvalue assms(3) show ?thesis
      by (simp add: forward_construct_def outside_value_def)
  next
    case (Lvalue_element i)
    with assms(3) show ?thesis by (simp add: outside_value_def)
  next
    case (Rvalue_element i)
    with assms(3) show ?thesis by (simp add: outside_value_def)
  qed
qed

lemma vector_of_fields [simp]:
  "size_m (vector_of xs k) = length xs"
  "capacity_m (data_m (vector_of xs k)) = length xs + k"
  "buffer_m (data_m (vector_of xs k)) = map Some xs @ replicate k None"
  by (simp_all add: vector_of_def)

lemma EmplaceBack_spare:
  assumes "0 < k"
  shows "Emplace T (length xs) (independent_ctor (Some x)) (vector_of xs k) = (Inr (length xs), vector_of (xs @ [x]) (k - 1))"
proof -
  from assms obtain k' where k: "k = Suc k'" by (cases k) auto
  have "(map Some xs @ replicate k None)[length xs := Some x] = map Some (xs @ [x]) @ replicate (k - 1) None"
    by (simp add: k list_update_append)
  with assms show ?thesis
    by (simp add: Emplace_def EmplaceWithoutReallocation_def Capacity_def RawMemory_Capacity_def
        Let_def with_buffer_def vector_of_def)
qed

lemma EmplaceWithReallocation_success:
  assumes "RawMemory_sized T (if size_m v = 0 then 1 else size_m v * 2) = Inr nd"
    and "pos \<le> capacity_m nd"
    and "UninitializedMoveOrCopy T (buffer_m (data_m v)) 0 (to_int pos)
           ((buffer_m nd)[pos := Some x]) 0 = (Inr (), old, new)"
    and "UninitializedMoveOrCopy T old pos (to_int (size_m v - pos)) new (pos + 1)
           = (Inr (), old', new')"
  shows "EmplaceWithReallocation T pos (independent_ctor (Some x)) v
     = (Inr (), v\<lparr>data_m := \<lparr>buffer_m = new', capacity_m = capacity_m nd\<rparr>\<rparr>)"
  using assms by (simp add: EmplaceWithReallocation_def Let_def RawMemory_Swap_def)

lemma Emplace_full_success:
  assumes "pos \<le> size_m v" and "size_m v = capacity_m (data_m v)"
    and "EmplaceWithReallocation T pos ctor v = (Inr (), v1)"
  shows "Emplace T pos ctor v = (Inr pos, v1\<lparr>size_m := size_m v1 + 1\<rparr>)"
  using assms by (simp add: Emplace_def Capacity_def RawMemory_Capacity_def)

lemma EmplaceBack_full:
  assumes vp: "value_preserving T" and nt: "never_throws T"
    and small: "length xs < 2 ^ 31" and mem: "can_allocate T (max 1 (2 * length xs))"
  shows "Emplace T (length xs) (independent_ctor (Some x)) (vector_of xs 0)
     = (Inr (length xs), vector_of (xs @ [x]) (max 1 (2 * length xs) - Suc (length xs)))"
proof -
  let ?n = "length xs" and ?c = "max 1 (2 * length xs)"
  let ?v = "vector_of xs 0"
  let ?nd = "\<lparr>buffer_m = replicate ?c None, capacity_m = ?c\<rparr> :: 'a RawMemory"
  let ?new = "(buffer_m ?nd)[?n := Some x]"
  have c: "(if size_m ?v = 0 then 1 else size_m ?v * 2) = ?c"
    by (cases xs) (simp_all add: max_def)
  have "RawMemory_sized T ?c = Inr ?nd"
    by (rule RawMemory_sized_returns) (use mem in blast)
  then have alloc: "RawMemory_sized T (if size_m ?v = 0 then 1 else size_m ?v * 2) = Inr ?nd"
    by (simp only: c)
  have pos: "?n \<le> capacity_m ?nd" by simp
  have live: "\<forall>j<?n. slot_at (buffer_m (data_m ?v)) (0 + j) \<noteq> None"
    by (simp add: slot_at_def)
  have fits: "0 + ?n \<le> length ?new" by simp
  from UninitializedMoveOrCopy_spec [OF vp nt live fits]
  obtain old' new' where t: "UninitializedMoveOrCopy T (buffer_m (data_m ?v)) 0 (int ?n) ?new 0 = (Inr (), old', new')"
    and len: "length new' = length ?new"
    and slots: "\<forall>i<length ?new. new' ! i = (if 0 \<le> i \<and> i < 0 + ?n then slot_at (buffer_m (data_m ?v)) (0 + (i - 0)) else ?new ! i)"
    by blast
  from t small
  have t1: "UninitializedMoveOrCopy T (buffer_m (data_m ?v)) 0 (to_int ?n) ?new 0 = (Inr (), old', new')"
    by (simp only: to_int_small)
  have new': "new' = map Some (xs @ [x]) @ replicate (?c - Suc ?n) None"
  proof (rule nth_equalityI)
    show "length new' = length (map Some (xs @ [x]) @ replicate (?c - Suc ?n) None)"
      using len by auto
  next
    fix i assume "i < length new'"
    with len have i: "i < ?c" by simp
    with slots have "new' ! i = (if i < ?n then slot_at (buffer_m (data_m ?v)) i else ?new ! i)" by simp
    then show "new' ! i = (map Some (xs @ [x]) @ replicate (?c - Suc ?n) None) ! i"
      using i by (auto simp: slot_at_def nth_append nth_list_update)
  qed
  have "to_int (size_m ?v - ?n) \<le> 0" by (simp add: to_int_def)
  then have t2: "UninitializedMoveOrCopy T old' ?n (to_int (size_m ?v - ?n)) new' (?n + 1) = (Inr (), old', new')"
    by (rule UninitializedMoveOrCopy_none)
  from EmplaceWithReallocation_success [OF alloc pos t1 t2]
  have "EmplaceWithReallocation T ?n (independent_ctor (Some x)) ?v
     = (Inr (), ?v\<lparr>data_m := \<lparr>buffer_m = new', capacity_m = capacity_m ?nd\<rparr>\<rparr>)" .
  from Emplace_full_success [OF _ _ this]
  have "Emplace T ?n (independent_ctor (Some x)) ?v = (Inr ?n,
      (?v\<lparr>data_m := \<lparr>buffer_m = new', capacity_m = capacity_m ?nd\<rparr>\<rparr>)\<lparr>size_m := Suc ?n\<rparr>)"
    by simp
  also have "(?v\<lparr>data_m := \<lparr>buffer_m = new', capacity_m = capacity_m ?nd\<rparr>\<rparr>)\<lparr>size_m := Suc ?n\<rparr>
      = vector_of (xs @ [x]) (?c - Suc ?n)"
    by (cases xs) (simp_all add: vector_of_def new')
  finally show ?thesis .
qed

lemma PushBack_vector_of:
  assumes vp: "value_preserving T" and nt: "never_throws T"
    and small: "length xs < 2 ^ 31"
    and mem: "k = 0 \<longrightarrow> can_allocate T (max 1 (2 * length xs))"
    and a: "outside_value a = Some y"
  shows "PushBack T a (vector_of xs k)
     = (Inr (), vector_of (xs @ [y])
                  (if k = 0 then max 1 (2 * length xs) - Suc (length xs) else k - 1))"
proof (cases "k = 0")
  case True
  with mem have "can_allocate T (max 1 (2 * length xs))" by simp
  from EmplaceBack_full [OF vp nt small this, of y] True show ?thesis
    by (simp add: PushBack_def EmplaceBack_def forward_construct_value [OF vp nt a])
next
  case False
  then have "0 < k" by simp
  from EmplaceBack_spare [OF this, of T xs y] False show ?thesis
    by (simp add: PushBack_def EmplaceBack_def forward_construct_value [OF vp nt a])
qed

lemma doubled_capacityI:
  "n + k = 2 ^ j \<Longrightarrow> n + k < 2 * n \<Longrightarrow> doubled_capacity n k"
  unfolding doubled_capacity_def by blast

lemma doubled_capacity_push:
  assumes "doubled_capacity n k"
  shows "doubled_capacity (Suc n) (if k = 0 then max 1 (2 * n) - Suc n else k - 1)"
proof (cases "n = 0")
  case True
  with assms have "k = 0" by (auto simp: doubled_capacity_def)
  with True have "Suc n + (if k = 0 then max 1 (2 * n) - Suc n else k - 1) = 2 ^ 0"
    and "Suc n + (if k = 0 then max 1 (2 * n) - Suc n else k - 1) < 2 * Suc n"
    by simp_all
  then show ?thesis by (rule doubled_capacityI)
next
  case False
  with assms obtain j where j: "n + k = 2 ^ j" "n + k < 2 * n"
    by (auto simp: doubled_capacity_def)
  show ?thesis
  proof (cases "k = 0")
    case True
    with j False have "Suc n + (max 1 (2 * n) - Suc n) = 2 ^ Suc j" by (simp add: max_def)
    moreover from False have "Suc n + (max 1 (2 * n) - Suc n) < 2 * Suc n" by (simp add: max_def)
    ultimately have "doubled_capacity (Suc n) (max 1 (2 * n) - Suc n)" by (rule doubled_capacityI)
    with True show ?thesis by simp
  next
    case k: False
    with j have "Suc n + (k - 1) = 2 ^ j" "Suc n + (k - 1) < 2 * Suc n" by simp_all
    then have "doubled_capacity (Suc n) (k - 1)" by (rule doubled_capacityI)
    with k show ?thesis by simp
  qed
qed

lemma PushBack_all_bounded:
  assumes vp: "value_preserving T" and nt: "never_throws T"
    and mem: "\<forall>n\<le>2 ^ 32. can_allocate T n"
    and bound: "length xs + length as \<le> 2 ^ 31"
    and cap: "doubled_capacity (length xs) k"
    and as: "map outside_value as = map Some ys"
  shows "\<exists>k'. PushBack_all T as (vector_of xs k) = (Inr (), vector_of (xs @ ys) k')
     \<and> doubled_capacity (length xs + length as) k'"
  using bound cap as
proof (induction as arbitrary: xs k ys)
  case Nil
  then show ?case by (intro exI [of _ k]) simp
next
  case (Cons a as)
  let ?k1 = "if k = 0 then max 1 (2 * length xs) - Suc (length xs) else k - 1"
  from Cons.prems(3) obtain y ys' where ys: "ys = y # ys'" and a: "outside_value a = Some y"
    and as: "map outside_value as = map Some ys'"
    by (cases ys) auto
  from Cons.prems(1) have small: "length xs < 2 ^ 31" by simp
  then have "max 1 (2 * length xs) \<le> 2 ^ 32" by simp
  with mem have "k = 0 \<longrightarrow> can_allocate T (max 1 (2 * length xs))" by blast
  from PushBack_vector_of [OF vp nt small this a]
  have step: "PushBack T a (vector_of xs k) = (Inr (), vector_of (xs @ [y]) ?k1)" .
  from Cons.prems(1) have b: "length (xs @ [y]) + length as \<le> 2 ^ 31" by simp
  from doubled_capacity_push [OF Cons.prems(2)]
  have c: "doubled_capacity (length (xs @ [y])) ?k1" by simp
  from Cons.IH [OF b c as] step show ?case by (simp add: ys)
qed

lemma doubled_capacity_full:
  assumes "doubled_capacity (2 ^ 31) k"
  shows "k = 0"
proof -
  from assms obtain j where j: "(2::nat) ^ 31 + k = 2 ^ j" "(2::nat) ^ 31 + k < 2 * 2 ^ 31"
    by (auto simp: doubled_capacity_def)
  then have "(2::nat) ^ j < 2 ^ 32" by simp
  then have "j < 32" by (simp only: power_strict_increasing_iff)
  moreover from j have "(2::nat) ^ 31 \<le> 2 ^ j" by simp
  then have "31 \<le> j" by (simp only: power_increasing_iff)
  ultimately have "j = 31" by simp
  with j show ?thesis by simp
qed

lemma vector_inv_vector_of: "vector_inv (vector_of xs k)"
  by (simp add: vector_inv_def vector_of_def list_all_iff)

lemma Vector_default_vector_of: "Vector_default = vector_of [] 0"
  by (simp add: Vector_default_def RawMemory_default_def vector_of_def)

lemma PushBack_all_append:
  "PushBack_all T (as @ bs) v =
     (case PushBack_all T as v of
        (Inl e, v1) \<Rightarrow> (Inl e, v1)
      | (Inr u, v1) \<Rightarrow> PushBack_all T bs v1)"
  by (induction as arbitrary: v) (auto split: prod.splits sum.splits)

lemma Emplace_end_of_large:
  assumes len: "length xs = 2 ^ 31" and mem: "can_allocate T (2 ^ 32)"
  shows "Emplace T (length xs) (independent_ctor (Some x)) (vector_of xs 0)
     = (Inr (2 ^ 31), \<lparr>data_m = \<lparr>buffer_m = (replicate (2 ^ 32) None)[2 ^ 31 := Some x],
                                capacity_m = 2 ^ 32\<rparr>, size_m = 2 ^ 31 + 1\<rparr>)"
proof -
  let ?v = "vector_of xs 0"
  let ?nd = "\<lparr>buffer_m = replicate (2 ^ 32) None, capacity_m = 2 ^ 32\<rparr> :: 'a RawMemory"
  let ?new = "(buffer_m ?nd)[length xs := Some x]"
  have "RawMemory_sized T (2 ^ 32) = Inr ?nd"
    by (rule RawMemory_sized_returns) (use mem in blast)
  then have alloc: "RawMemory_sized T (if size_m ?v = 0 then 1 else size_m ?v * 2) = Inr ?nd"
    by (simp add: len)
  have pos: "length xs \<le> capacity_m ?nd" by (simp add: len)
  have "to_int (length xs) \<le> 0" by (simp add: len to_int_def Let_def)
  then have t1: "UninitializedMoveOrCopy T (buffer_m (data_m ?v)) 0 (to_int (length xs)) ?new 0
      = (Inr (), buffer_m (data_m ?v), ?new)"
    by (rule UninitializedMoveOrCopy_none)
  have "to_int (size_m ?v - length xs) \<le> 0" by (simp add: to_int_def)
  then have t2: "UninitializedMoveOrCopy T (buffer_m (data_m ?v)) (length xs)
      (to_int (size_m ?v - length xs)) ?new (length xs + 1) = (Inr (), buffer_m (data_m ?v), ?new)"
    by (rule UninitializedMoveOrCopy_none)
  from EmplaceWithReallocation_success [OF alloc pos t1 t2]
  have "EmplaceWithReallocation T (length xs) (independent_ctor (Some x)) ?v
     = (Inr (), ?v\<lparr>data_m := \<lparr>buffer_m = ?new, capacity_m = capacity_m ?nd\<rparr>\<rparr>)" .
  from Emplace_full_success [OF _ _ this]
  have "Emplace T (length xs) (independent_ctor (Some x)) ?v = (Inr (length xs),
      (?v\<lparr>data_m := \<lparr>buffer_m = ?new, capacity_m = capacity_m ?nd\<rparr>\<rparr>)\<lparr>size_m := Suc (length xs)\<rparr>)"
    by simp
  then show ?thesis by (simp add: len vector_of_def)
qed

lemma PushBack_all_to_large:
  "PushBack_all (arithmetic_type (2 ^ 40)) (replicate (2 ^ 31) (Lvalue 7)) Vector_default
     = (Inr (), large_vector)"
proof -
  let ?T = "arithmetic_type (2 ^ 40)"
  have mem: "\<forall>n\<le>2 ^ 32. can_allocate ?T n" by (simp add: arithmetic_type_def)
  have bound: "length ([] :: int list) + length (replicate (2 ^ 31) (Lvalue (7 :: int))) \<le> 2 ^ 31"
    by simp
  have cap: "doubled_capacity (length ([] :: int list)) 0" by (simp add: doubled_capacity_def)
  have as: "map outside_value (replicate (2 ^ 31) (Lvalue (7 :: int)))
      = map Some (replicate (2 ^ 31) 7)"
    by (simp add: outside_value_def)
  from PushBack_all_bounded [OF value_preserving_arithmetic_type never_throws_arithmetic_type mem bound cap as]
  obtain k' where run: "PushBack_all ?T (replicate (2 ^ 31) (Lvalue 7)) (vector_of [] 0)
        = (Inr (), vector_of ([] @ replicate (2 ^ 31) 7) k')"
    and k': "doubled_capacity (length ([] :: int list) + length (replicate (2 ^ 31) (Lvalue (7 :: int)))) k'"
    by blast
  from k' have "doubled_capacity (2 ^ 31) k'" by simp
  then have "k' = 0" by (rule doubled_capacity_full)
  with run show ?thesis
    by (simp add: Vector_default_vector_of large_vector_def)
qed

text \<open>
  C1, at a failing input. \<open>2 ^ 31\<close> calls of \<^verbatim>\<open>PushBack\<close> on a default-constructed vector
  of an arithmetic type give the full vector \<open>large_vector\<close> (the lemma above). The next
  call reallocates: \<^verbatim>\<open>distance\<close> is \<open>2 ^ 31\<close>, the parameter \<^verbatim>\<open>int number_of_elements\<close>
  receives \<open>- 2 ^ 31\<close>, and no element is transferred to the new buffer. All calls
  return and the size is the number of calls, but the slot of index 0 holds no object:
  reading it does not give the first pushed value.
\<close>

theorem PushBack_sequence_loses_elements:
  "fst (PushBack_all (arithmetic_type (2 ^ 40)) (replicate (2 ^ 31) (Lvalue 7) @ [Lvalue 7]) Vector_default)
     = Inr ()
   \<and> Size (snd (PushBack_all (arithmetic_type (2 ^ 40)) (replicate (2 ^ 31) (Lvalue 7) @ [Lvalue 7])
        Vector_default)) = 2 ^ 31 + 1
   \<and> Vector_index (snd (PushBack_all (arithmetic_type (2 ^ 40)) (replicate (2 ^ 31) (Lvalue 7) @ [Lvalue 7])
        Vector_default)) 0 = Inl UndefinedBehaviour"
proof -
  let ?T = "arithmetic_type (2 ^ 40)"
  have mem: "can_allocate ?T (2 ^ 32)" by (simp add: arithmetic_type_def)
  have len: "length (replicate (2 ^ 31) (7 :: int)) = 2 ^ 31" by simp
  from Emplace_end_of_large [OF len mem, of 7]
  have "Emplace ?T (2 ^ 31) (independent_ctor (Some 7)) large_vector
     = (Inr (2 ^ 31), \<lparr>data_m = \<lparr>buffer_m = (replicate (2 ^ 32) None)[2 ^ 31 := Some 7],
                                capacity_m = 2 ^ 32\<rparr>, size_m = 2 ^ 31 + 1\<rparr>)"
    by (simp add: large_vector_def)
  then have "PushBack ?T (Lvalue 7) large_vector
     = (Inr (), \<lparr>data_m = \<lparr>buffer_m = (replicate (2 ^ 32) None)[2 ^ 31 := Some 7],
                                capacity_m = 2 ^ 32\<rparr>, size_m = 2 ^ 31 + 1\<rparr>)"
    by (simp add: PushBack_def EmplaceBack_def large_vector_def
        forward_construct_value [OF value_preserving_arithmetic_type never_throws_arithmetic_type
          outside_value_Lvalue])
  then have last: "PushBack_all ?T [Lvalue 7] large_vector
     = (Inr (), \<lparr>data_m = \<lparr>buffer_m = (replicate (2 ^ 32) None)[2 ^ 31 := Some 7],
                                capacity_m = 2 ^ 32\<rparr>, size_m = 2 ^ 31 + 1\<rparr>)"
    by simp
  have "PushBack_all ?T (replicate (2 ^ 31) (Lvalue 7) @ [Lvalue 7]) Vector_default
     = PushBack_all ?T [Lvalue 7] large_vector"
    by (simp only: PushBack_all_append PushBack_all_to_large prod.case sum.case)
  with last have "PushBack_all ?T (replicate (2 ^ 31) (Lvalue 7) @ [Lvalue 7]) Vector_default
     = (Inr (), \<lparr>data_m = \<lparr>buffer_m = (replicate (2 ^ 32) None)[2 ^ 31 := Some 7],
                                capacity_m = 2 ^ 32\<rparr>, size_m = 2 ^ 31 + 1\<rparr>)"
    by (simp only:)
  then show ?thesis
    by (simp add: Size_def Vector_index_def slot_at_def)
qed

section \<open>Vectors of more than INT_MAX elements\<close>

lemma large_vector_fields:
  "size_m large_vector = 2 ^ 31" "capacity_m (data_m large_vector) = 2 ^ 31"
  "buffer_m (data_m large_vector) = replicate (2 ^ 31) (Some 7)"
  by (simp_all add: large_vector_def vector_of_def)

lemma Reserve_success:
  assumes "\<not> new_capacity \<le> capacity_m (data_m v)"
    and "RawMemory_sized T new_capacity = Inr nd"
    and "UninitializedMoveOrCopy T (buffer_m (data_m v)) 0 (to_int (size_m v)) (buffer_m nd) 0
           = (Inr (), old, new)"
  shows "Reserve T new_capacity v
     = (Inr (), v\<lparr>data_m := \<lparr>buffer_m = new, capacity_m = capacity_m nd\<rparr>\<rparr>)"
  using assms by (simp add: Reserve_def RawMemory_Swap_def)

lemma Reserve_large:
  "Reserve (arithmetic_type (2 ^ 40)) (2 ^ 31 + 1) large_vector
     = (Inr (), \<lparr>data_m = \<lparr>buffer_m = replicate (2 ^ 31 + 1) None, capacity_m = 2 ^ 31 + 1\<rparr>,
                  size_m = 2 ^ 31\<rparr>)"
proof -
  let ?T = "arithmetic_type (2 ^ 40)"
  let ?nd = "\<lparr>buffer_m = replicate (2 ^ 31 + 1) None, capacity_m = 2 ^ 31 + 1\<rparr> :: int RawMemory"
  have "can_allocate ?T (2 ^ 31 + 1)" by (simp add: arithmetic_type_def)
  then have alloc: "RawMemory_sized ?T (2 ^ 31 + 1) = Inr ?nd"
    by (simp add: RawMemory_sized_returns)
  have "to_int (size_m large_vector) \<le> 0" by (simp add: large_vector_fields to_int_def Let_def)
  then have t: "UninitializedMoveOrCopy ?T (buffer_m (data_m large_vector)) 0
      (to_int (size_m large_vector)) (buffer_m ?nd) 0
      = (Inr (), buffer_m (data_m large_vector), buffer_m ?nd)"
    by (rule UninitializedMoveOrCopy_none)
  have full: "\<not> (2 ^ 31 + 1 \<le> capacity_m (data_m large_vector))"
    by (simp add: large_vector_fields)
  from Reserve_success [OF full alloc t] show ?thesis
    by (simp add: large_vector_def vector_of_def)
qed

text \<open>
  C6, at a failing input. \<^verbatim>\<open>Reserve(2 ^ 31 + 1)\<close> on the full vector of \<open>2 ^ 31\<close> elements
  returns and keeps the size, but \<^verbatim>\<open>size_\<close> is passed to \<^verbatim>\<open>int number_of_elements\<close> as
  \<open>- 2 ^ 31\<close>: nothing is transferred, the old elements are destroyed, and every slot of
  the new buffer is raw. The element sequence is not the one before the call.
\<close>

theorem Reserve_loses_elements_of_large_vector:
  "vector_inv large_vector
   \<and> Vector_index large_vector 0 = Inr 7
   \<and> fst (Reserve (arithmetic_type (2 ^ 40)) (2 ^ 31 + 1) large_vector) = Inr ()
   \<and> Size (snd (Reserve (arithmetic_type (2 ^ 40)) (2 ^ 31 + 1) large_vector)) = Size large_vector
   \<and> elements (snd (Reserve (arithmetic_type (2 ^ 40)) (2 ^ 31 + 1) large_vector))
       = replicate (2 ^ 31) None
   \<and> Vector_index (snd (Reserve (arithmetic_type (2 ^ 40)) (2 ^ 31 + 1) large_vector)) 0
       = Inl UndefinedBehaviour"
proof -
  have "vector_inv large_vector"
    unfolding large_vector_def by (rule vector_inv_vector_of)
  moreover have "Vector_index large_vector 0 = Inr 7"
    by (simp add: Vector_index_def large_vector_fields slot_at_def)
  moreover have "Size large_vector = 2 ^ 31"
    by (simp add: Size_def large_vector_fields)
  ultimately show ?thesis
    using Reserve_large
    by (simp add: Size_def elements_def Vector_index_def slot_at_def)
qed

lemma move_loop_stops:
  assumes "0 < n" and "move_assign_slot T b d first = (Inl e, b')"
  shows "move_loop T b first d n = (Inl e, b')"
  using assms by (cases n) auto

lemma Emplace_front_of_large:
  assumes mem: "can_allocate T (2 ^ 32)"
  shows "Emplace T 0 (independent_ctor (Some x)) large_vector
     = (Inr 0, \<lparr>data_m = \<lparr>buffer_m = (replicate (2 ^ 32) None)[0 := Some x],
                                capacity_m = 2 ^ 32\<rparr>, size_m = 2 ^ 31 + 1\<rparr>)"
proof -
  let ?v = "large_vector"
  let ?nd = "\<lparr>buffer_m = replicate (2 ^ 32) None, capacity_m = 2 ^ 32\<rparr> :: int RawMemory"
  let ?new = "(buffer_m ?nd)[0 := Some x]"
  have "RawMemory_sized T (2 ^ 32) = Inr ?nd"
    by (rule RawMemory_sized_returns) (use mem in blast)
  then have alloc: "RawMemory_sized T (if size_m ?v = 0 then 1 else size_m ?v * 2) = Inr ?nd"
    by (simp add: large_vector_fields)
  have pos: "0 \<le> capacity_m ?nd" by simp
  have "to_int 0 \<le> 0" by (simp add: to_int_def)
  then have t1: "UninitializedMoveOrCopy T (buffer_m (data_m ?v)) 0 (to_int 0) ?new 0
      = (Inr (), buffer_m (data_m ?v), ?new)"
    by (rule UninitializedMoveOrCopy_none)
  have "to_int (size_m ?v - 0) \<le> 0" by (simp add: large_vector_fields to_int_def Let_def)
  then have t2: "UninitializedMoveOrCopy T (buffer_m (data_m ?v)) 0
      (to_int (size_m ?v - 0)) ?new (0 + 1) = (Inr (), buffer_m (data_m ?v), ?new)"
    by (rule UninitializedMoveOrCopy_none)
  from EmplaceWithReallocation_success [OF alloc pos t1 t2]
  have "EmplaceWithReallocation T 0 (independent_ctor (Some x)) ?v
     = (Inr (), ?v\<lparr>data_m := \<lparr>buffer_m = ?new, capacity_m = capacity_m ?nd\<rparr>\<rparr>)" .
  from Emplace_full_success [OF _ _ this]
  have "Emplace T 0 (independent_ctor (Some x)) ?v = (Inr 0,
      (?v\<lparr>data_m := \<lparr>buffer_m = ?new, capacity_m = capacity_m ?nd\<rparr>\<rparr>)\<lparr>size_m := Suc (size_m ?v)\<rparr>)"
    by (simp add: large_vector_fields)
  then show ?thesis by (simp add: large_vector_def vector_of_def)
qed

text \<open>
  C8, at a failing input. \<^verbatim>\<open>Insert(begin(), 9)\<close> into the full vector of \<open>2 ^ 31\<close> elements
  reallocates and returns, but the count of the suffix, \<open>2 ^ 31\<close>, reaches
  \<^verbatim>\<open>int number_of_elements\<close> as \<open>- 2 ^ 31\<close>: the old elements are not transferred, and the
  slot after the new element is raw. \<^verbatim>\<open>Erase(begin())\<close> then move-assigns from raw slots;
  it does not give back the vector before the \<^verbatim>\<open>Insert\<close>.
\<close>

theorem Insert_then_Erase_loses_elements_of_large_vector:
  "Vector_index large_vector 0 = Inr 7
   \<and> fst (Insert (arithmetic_type (2 ^ 40)) 0 (Lvalue 9) large_vector) = Inr 0
   \<and> Vector_index (snd (Insert (arithmetic_type (2 ^ 40)) 0 (Lvalue 9) large_vector)) 1
       = Inl UndefinedBehaviour
   \<and> fst (Erase (arithmetic_type (2 ^ 40)) 0
            (snd (Insert (arithmetic_type (2 ^ 40)) 0 (Lvalue 9) large_vector)))
       = Inl UndefinedBehaviour"
proof -
  let ?T = "arithmetic_type (2 ^ 40)"
  let ?b = "(replicate (2 ^ 32) None)[0 := Some (9 :: int)]"
  let ?w = "\<lparr>data_m = \<lparr>buffer_m = ?b, capacity_m = 2 ^ 32\<rparr>, size_m = 2 ^ 31 + 1\<rparr>"
  have "can_allocate ?T (2 ^ 32)" by (simp add: arithmetic_type_def)
  from Emplace_front_of_large [OF this, of 9]
  have ins: "Insert ?T 0 (Lvalue 9) large_vector = (Inr 0, ?w)"
    by (simp add: Insert_def
        forward_construct_value [OF value_preserving_arithmetic_type never_throws_arithmetic_type
          outside_value_Lvalue])
  have "slot_at ?b 1 = None" by (simp add: slot_at_def)
  then have "move_assign_slot ?T ?b 0 1 = (Inl UndefinedBehaviour, ?b)"
    by (simp add: move_assign_slot_def)
  from move_loop_stops [OF _ this, of "2 ^ 31"]
  have "move_loop ?T ?b 1 0 (2 ^ 31) = (Inl UndefinedBehaviour, ?b)" by simp
  then have "std_move ?T (buffer_m (data_m ?w)) (0 + 1) (size_m ?w) 0 = (Inl UndefinedBehaviour, ?b)"
    by (simp add: std_move_def)
  then have er: "Erase ?T 0 ?w = (Inl UndefinedBehaviour, with_buffer ?w ?b)"
    by (simp add: Erase_def)
  have "Vector_index large_vector 0 = Inr 7"
    by (simp add: Vector_index_def large_vector_fields slot_at_def)
  moreover have "Vector_index ?w 1 = Inl UndefinedBehaviour"
    by (simp add: Vector_index_def slot_at_def)
  ultimately show ?thesis
    by (simp only: ins er fst_conv snd_conv)
qed

lemma Resize_large:
  "Resize (arithmetic_type (2 ^ 40)) (2 ^ 31 + 1) large_vector
     = (Inr (), \<lparr>data_m = \<lparr>buffer_m = (replicate (2 ^ 31 + 1) None)[2 ^ 31 := Some 0],
                            capacity_m = 2 ^ 31 + 1\<rparr>,
                  size_m = 2 ^ 31 + 1\<rparr>)"
proof -
  let ?T = "arithmetic_type (2 ^ 40)"
  let ?v1 = "\<lparr>data_m = \<lparr>buffer_m = replicate (2 ^ 31 + 1) None, capacity_m = 2 ^ 31 + 1\<rparr>,
                  size_m = 2 ^ 31\<rparr> :: int Vector"
  have c: "uninitialized_value_construct_n ?T (buffer_m (data_m ?v1)) (size_m ?v1)
      (2 ^ 31 + 1 - size_m ?v1) = (Inr (), (replicate (2 ^ 31 + 1) None)[2 ^ 31 := Some 0])"
    by (simp add: uninitialized_value_construct_n_def arithmetic_type_def)
  have "size_m large_vector \<noteq> 2 ^ 31 + 1" "\<not> (2 ^ 31 + 1 < size_m large_vector)"
    by (simp_all add: large_vector_fields)
  then have "Resize ?T (2 ^ 31 + 1) large_vector
     = (Inr (), (with_buffer ?v1 ((replicate (2 ^ 31 + 1) None)[2 ^ 31 := Some 0]))\<lparr>size_m := 2 ^ 31 + 1\<rparr>)"
    unfolding Resize_def by (simp only: Reserve_large c if_False prod.case sum.case)
  then show ?thesis by (simp add: with_buffer_def)
qed

text \<open>
  C9, at two failing inputs.
  \<^item> \<^verbatim>\<open>Resize(2 ^ 31 + 1)\<close> on the full vector of \<open>2 ^ 31\<close> elements returns with size
    \<open>2 ^ 31 + 1\<close> and only the last slot live (\<^verbatim>\<open>Reserve\<close> has transferred nothing): the
    invariant held before and does not hold after.
  \<^item> \<^verbatim>\<open>Emplace(begin(), 5)\<close> on the vector \<open>[13, 2]\<close> with one spare slot, for the element
    type whose move assignment throws on 13: the last element has been move-constructed
    into the spare slot when \<^verbatim>\<open>std::move_backward\<close> throws, and \<^verbatim>\<open>size_\<close> is still 2, so a
    live object lies outside \<^verbatim>\<open>[begin(), end())\<close>.
\<close>

theorem operations_break_the_invariant:
  "vector_inv large_vector
   \<and> fst (Resize (arithmetic_type (2 ^ 40)) (2 ^ 31 + 1) large_vector) = Inr ()
   \<and> \<not> vector_inv (snd (Resize (arithmetic_type (2 ^ 40)) (2 ^ 31 + 1) large_vector))
   \<and> vector_inv (vector_of [13, 2 :: int] 1)
   \<and> fst (Emplace fragile_type 0 (independent_ctor (Some 5)) (vector_of [13, 2] 1)) = Inl ElementConstructionFailure
   \<and> Size (snd (Emplace fragile_type 0 (independent_ctor (Some 5)) (vector_of [13, 2] 1))) = 2
   \<and> buffer_m (data_m (snd (Emplace fragile_type 0 (independent_ctor (Some 5)) (vector_of [13, 2] 1))))
       = [Some 13, Some 0, Some 2]
   \<and> \<not> vector_inv (snd (Emplace fragile_type 0 (independent_ctor (Some 5)) (vector_of [13, 2] 1)))"
proof -
  let ?w = "\<lparr>data_m = \<lparr>buffer_m = (replicate (2 ^ 31 + 1) None)[2 ^ 31 := Some (0 :: int)],
                            capacity_m = 2 ^ 31 + 1\<rparr>,
                  size_m = 2 ^ 31 + 1\<rparr>"
  have large: "vector_inv large_vector"
    unfolding large_vector_def by (rule vector_inv_vector_of)
  have "\<not> vector_inv ?w"
  proof
    assume "vector_inv ?w"
    then have "\<forall>i<capacity_m (data_m ?w). (buffer_m (data_m ?w) ! i \<noteq> None) = (i < size_m ?w)"
      unfolding vector_inv_iff by blast
    moreover have "0 < capacity_m (data_m ?w)" by simp
    ultimately have "(buffer_m (data_m ?w) ! 0 \<noteq> None) = (0 < size_m ?w)" by blast
    then show False by simp
  qed
  then have "\<not> vector_inv (snd (Inr () :: error + unit, ?w))"
    by (simp only: snd_conv not_False_eq_True)
  then have "\<not> vector_inv (snd (Resize (arithmetic_type (2 ^ 40)) (2 ^ 31 + 1) large_vector))"
    by (simp only: Resize_large not_False_eq_True)
  moreover have "fst (Resize (arithmetic_type (2 ^ 40)) (2 ^ 31 + 1) large_vector) = Inr ()"
    by (simp only: Resize_large fst_conv)
  ultimately have resize: "fst (Resize (arithmetic_type (2 ^ 40)) (2 ^ 31 + 1) large_vector) = Inr ()"
    "\<not> vector_inv (snd (Resize (arithmetic_type (2 ^ 40)) (2 ^ 31 + 1) large_vector))"
    by blast+
  have small: "vector_inv (vector_of [13, 2 :: int] 1)" by (rule vector_inv_vector_of)
  have run: "Emplace fragile_type 0 (independent_ctor (Some 5)) (vector_of [13, 2] 1)
     = (Inl ElementConstructionFailure,
        \<lparr>data_m = \<lparr>buffer_m = [Some 13, Some 0, Some 2], capacity_m = 3\<rparr>, size_m = 2\<rparr>)"
    by (simp add: vector_eval fragile_type_def)
  have "\<not> vector_inv \<lparr>data_m = \<lparr>buffer_m = [Some 13, Some 0, Some (2 :: int)], capacity_m = 3\<rparr>, size_m = 2\<rparr>"
    by (simp add: vector_inv_def)
  with run have emplace:
    "fst (Emplace fragile_type 0 (independent_ctor (Some 5)) (vector_of [13, 2] 1)) = Inl ElementConstructionFailure"
    "Size (snd (Emplace fragile_type 0 (independent_ctor (Some 5)) (vector_of [13, 2] 1))) = 2"
    "buffer_m (data_m (snd (Emplace fragile_type 0 (independent_ctor (Some 5)) (vector_of [13, 2] 1))))
       = [Some 13, Some 0, Some 2]"
    "\<not> vector_inv (snd (Emplace fragile_type 0 (independent_ctor (Some 5)) (vector_of [13, 2] 1)))"
    by (simp_all add: Size_def)
  from large resize small emplace show ?thesis by blast
qed

section \<open>Vectors of fewer than \<open>2 ^ 31\<close> elements\<close>

text \<open>
  Below \<open>2 ^ 31\<close> elements the conversion to \<^verbatim>\<open>int\<close> keeps the count, and the operations
  that reallocate do what they are meant to: \<^verbatim>\<open>Reserve\<close> keeps the elements, \<^verbatim>\<open>Emplace\<close>
  inserts at any position when the construction of the new element leaves the elements as
  they are, \<^verbatim>\<open>Insert\<close> of an argument other than \<^verbatim>\<open>std::move(v[i])\<close> followed by \<^verbatim>\<open>Erase\<close> at
  the same position gives the elements back, and the invariant is kept by each operation
  that returns.
\<close>

lemma uninitialized_move_loop_source:
  assumes "uninitialized_move_loop T src from dst first cur n = (r, src', dst')"
  shows "length src' = length src \<and> (\<forall>i. i < from \<or> from + n \<le> i \<longrightarrow> src' ! i = src ! i)"
  using assms
proof (induction n arbitrary: src "from" dst cur)
  case 0
  then show ?case by simp
next
  case (Suc n)
  show ?case
  proof (cases "slot_at src from")
    case None
    with Suc.prems show ?thesis by simp
  next
    case (Some x)
    show ?thesis
    proof (cases "move_ctor T x")
      case None
      with Some Suc.prems show ?thesis by simp
    next
      case (Some yr)
      obtain y r' where yr: "yr = (y, r')" by (cases yr)
      with Some \<open>slot_at src from = Some x\<close> Suc.prems
      have "uninitialized_move_loop T (src[from := Some r']) (Suc from) (dst[cur := Some y]) first (Suc cur) n
          = (r, src', dst')" by simp
      from Suc.IH [OF this] show ?thesis by auto
    qed
  qed
qed

lemma UninitializedMoveOrCopy_Inr:
  assumes run: "UninitializedMoveOrCopy T src from (int n) dst to = (Inr u, src', dst')"
    and vp: "value_preserving T" and fits: "to + n \<le> length dst"
  shows "length src' = length src \<and> length dst' = length dst
     \<and> (\<forall>i. i < from \<or> from + n \<le> i \<longrightarrow> src' ! i = src ! i)
     \<and> (\<forall>i<length dst. dst' ! i =
           (if to \<le> i \<and> i < to + n then slot_at src (from + (i - to)) else dst ! i))
     \<and> (\<forall>j<n. slot_at src (from + j) \<noteq> None)"
proof (cases "is_nothrow_move_constructible T \<or> \<not> is_copy_constructible T")
  case True
  with run have loop: "uninitialized_move_loop T src from dst to to n = (Inr u, src', dst')"
    by (simp add: UninitializedMoveOrCopy_def uninitialized_move_n_def)
  from uninitialized_move_loop_spec [OF loop vp fits] uninitialized_move_loop_source [OF loop]
  show ?thesis by blast
next
  case False
  with run have loop: "uninitialized_copy_loop T src from dst to to n = (Inr u, dst')"
    and src: "src' = src"
    by (auto simp: UninitializedMoveOrCopy_def uninitialized_copy_n_def split: prod.splits)
  from uninitialized_copy_loop_spec [OF loop vp fits] src show ?thesis by blast
qed

lemma Reserve_noop: "n \<le> capacity_m (data_m v) \<Longrightarrow> Reserve T n v = (Inr (), v)"
  by (simp add: Reserve_def)

lemma Reserve_bounded:
  assumes inv: "vector_inv v" and small: "size_m v < 2 ^ 31" and vp: "value_preserving T"
    and run: "Reserve T n v = (Inr u, v')"
  shows "size_m v' = size_m v \<and> elements v' = elements v \<and> vector_inv v'
     \<and> capacity_m (data_m v') = max n (capacity_m (data_m v))"
proof (cases "n \<le> capacity_m (data_m v)")
  case True
  with run inv show ?thesis by (simp add: Reserve_def max_def)
next
  case False
  let ?b = "buffer_m (data_m v)" and ?s = "size_m v"
  note V = vector_inv_slots [OF inv]
  from run False obtain nd old new where nd: "RawMemory_sized T n = Inr nd"
    and t: "UninitializedMoveOrCopy T ?b 0 (to_int ?s) (buffer_m nd) 0 = (Inr (), old, new)"
    and v': "v' = v\<lparr>data_m := \<lparr>buffer_m = new, capacity_m = capacity_m nd\<rparr>\<rparr>"
    by (auto simp: Reserve_def RawMemory_Swap_def split: sum.splits prod.splits)
  from RawMemory_sized_Inr [OF nd] have nd': "nd = \<lparr>buffer_m = replicate n None, capacity_m = n\<rparr>" .
  from False V(2) have sn: "?s \<le> n" by simp
  from t small have t': "UninitializedMoveOrCopy T ?b 0 (int ?s) (replicate n None) 0 = (Inr (), old, new)"
    by (simp add: to_int_small nd')
  from sn have "0 + ?s \<le> length (replicate n (None :: 'a option))" by simp
  from UninitializedMoveOrCopy_Inr [OF t' vp this]
  have new: "length new = n" "\<forall>i<n. new ! i = (if i < ?s then slot_at ?b i else None)"
    by auto
  have slots: "new ! i = (if i < ?s then ?b ! i else None)" if "i < n" for i
    using that new(2) V(1,2) by (simp add: slot_at_def)
  have "take ?s new = take ?s ?b"
  proof (rule nth_equalityI)
    show "length (take ?s new) = length (take ?s ?b)" using new(1) sn V(1,2) by simp
  next
    fix i assume "i < length (take ?s new)"
    with slots [of i] sn new(1) show "take ?s new ! i = take ?s ?b ! i" by simp
  qed
  then have "elements v' = elements v" by (simp add: elements_def v')
  moreover have "vector_inv v'"
    unfolding vector_inv_iff using new(1) sn slots V(3) by (auto simp: v' nd')
  ultimately show ?thesis using False by (simp add: v' nd' max_def)
qed

lemma Reserve_returns:
  assumes inv: "vector_inv v" and small: "size_m v < 2 ^ 31" and vp: "value_preserving T"
    and nt: "never_throws T" and mem: "can_allocate T n"
  shows "\<exists>v'. Reserve T n v = (Inr (), v')"
proof (cases "n \<le> capacity_m (data_m v)")
  case True
  then show ?thesis by (simp add: Reserve_def)
next
  case False
  let ?b = "buffer_m (data_m v)" and ?s = "size_m v"
  let ?nd = "\<lparr>buffer_m = replicate n None, capacity_m = n\<rparr> :: 'a RawMemory"
  note V = vector_inv_slots [OF inv]
  have alloc: "RawMemory_sized T n = Inr ?nd"
    by (rule RawMemory_sized_returns) (use mem in blast)
  have live: "\<forall>j<?s. slot_at ?b (0 + j) \<noteq> None" using V(4) by simp
  from False V(2) have "0 + ?s \<le> length (buffer_m ?nd)" by simp
  from UninitializedMoveOrCopy_spec [OF vp nt live this]
  obtain old new where "UninitializedMoveOrCopy T ?b 0 (int ?s) (buffer_m ?nd) 0 = (Inr (), old, new)"
    by blast
  with small have t: "UninitializedMoveOrCopy T ?b 0 (to_int ?s) (buffer_m ?nd) 0 = (Inr (), old, new)"
    by (simp add: to_int_small)
  from Reserve_success [OF False alloc t] show ?thesis by blast
qed

lemma move_backward_loop_spec:
  assumes "move_backward_loop T b last_it d_last n = (Inr u, b')"
    and "value_preserving T" and "d_last = Suc last_it" and "n \<le> last_it" and "last_it < length b"
  shows "length b' = length b
    \<and> (\<forall>i<length b. i \<noteq> last_it - n \<longrightarrow>
          b' ! i = (if last_it - n < i \<and> i \<le> last_it then b ! (i - 1) else b ! i))"
  using assms
proof (induction n arbitrary: b last_it d_last)
  case 0
  then show ?case by auto
next
  case (Suc n)
  from Suc.prems(1,3) obtain b1 where step: "move_assign_slot T b last_it (last_it - 1) = (Inr (), b1)"
    and run: "move_backward_loop T b1 (last_it - 1) last_it n = (Inr u, b')"
    by (auto split: prod.splits sum.splits)
  from move_assign_slot_Inr [OF step Suc.prems(2)] obtain x r
    where x: "slot_at b (last_it - 1) = Some x" and b1: "b1 = (b[last_it - 1 := Some r])[last_it := Some x]"
    by blast
  from Suc.prems(4) have pos: "0 < last_it" "n \<le> last_it - 1" "last_it = Suc (last_it - 1)" by simp_all
  from Suc.prems(5) have len: "last_it - 1 < length b1" by (simp add: b1)
  from Suc.IH [OF run Suc.prems(2) pos(3) pos(2) len]
  have IH: "length b' = length b1"
    "\<forall>i<length b1. i \<noteq> last_it - 1 - n \<longrightarrow>
        b' ! i = (if last_it - 1 - n < i \<and> i \<le> last_it - 1 then b1 ! (i - 1) else b1 ! i)"
    by blast+
  have xb: "b ! (last_it - 1) = Some x"
    using x Suc.prems(5) by (auto simp: slot_at_def split: if_splits)
  have "\<forall>i<length b. i \<noteq> last_it - Suc n \<longrightarrow>
          b' ! i = (if last_it - Suc n < i \<and> i \<le> last_it then b ! (i - 1) else b ! i)"
  proof (intro allI impI)
    fix i assume i: "i < length b" and ne: "i \<noteq> last_it - Suc n"
    with IH(2) have "b' ! i = (if last_it - 1 - n < i \<and> i \<le> last_it - 1 then b1 ! (i - 1) else b1 ! i)"
      by (simp add: b1)
    then show "b' ! i = (if last_it - Suc n < i \<and> i \<le> last_it then b ! (i - 1) else b ! i)"
      using i ne xb pos Suc.prems(4,5) by (auto simp: b1 nth_list_update)
  qed
  with IH(1) show ?case by (simp add: b1)
qed

lemma nth_insert:
  assumes "pos \<le> length xs" and "i \<le> length xs"
  shows "(take pos xs @ x # drop pos xs) ! i
     = (if i < pos then xs ! i else if i = pos then x else xs ! (i - 1))"
proof (cases "i < pos")
  case True
  with assms show ?thesis by (simp add: nth_append)
next
  case False
  show ?thesis
  proof (cases "i = pos")
    case True
    with assms show ?thesis by (simp add: nth_append)
  next
    case ne: False
    with False obtain j where j: "i - pos = Suc j" by (cases "i - pos") auto
    then have "pos + j = i - 1" by simp
    with False ne j assms show ?thesis by (simp add: nth_append min_def)
  qed
qed

lemma EmplaceWithReallocation_buffer:
  assumes inv: "vector_inv v" and pos: "pos \<le> size_m v" and small: "size_m v < 2 ^ 31"
    and vp: "value_preserving T" and full: "size_m v = capacity_m (data_m v)"
    and built: "ctor (buffer_m (data_m v)) = Inr (x, buffer_m (data_m v))"
    and run: "EmplaceWithReallocation T pos ctor v = (Inr u, v')"
  shows "size_m v' = size_m v \<and> capacity_m (data_m v') = max 1 (2 * size_m v)
     \<and> length (buffer_m (data_m v')) = max 1 (2 * size_m v)
     \<and> (\<forall>i<max 1 (2 * size_m v). buffer_m (data_m v') ! i =
           (if i < pos then buffer_m (data_m v) ! i
            else if i = pos then Some x
            else if i \<le> size_m v then buffer_m (data_m v) ! (i - 1)
            else None))"
proof -
  let ?b = "buffer_m (data_m v)" and ?s = "size_m v" and ?c = "max 1 (2 * size_m v)"
  note V = vector_inv_slots [OF inv]
  have c: "(if ?s = 0 then 1 else ?s * 2) = ?c" by (simp add: max_def)
  from run obtain nd old new old' new' where nd: "RawMemory_sized T ?c = Inr nd"
    and t1: "UninitializedMoveOrCopy T ?b 0 (to_int pos) ((buffer_m nd)[pos := Some x]) 0
              = (Inr (), old, new)"
    and t2: "UninitializedMoveOrCopy T old pos (to_int (?s - pos)) new (pos + 1) = (Inr (), old', new')"
    and v': "v' = v\<lparr>data_m := \<lparr>buffer_m = new', capacity_m = capacity_m nd\<rparr>\<rparr>"
    unfolding EmplaceWithReallocation_def Let_def c
    by (auto simp: RawMemory_Swap_def built split: sum.splits prod.splits if_splits)
  from RawMemory_sized_Inr [OF nd] have nd': "nd = \<lparr>buffer_m = replicate ?c None, capacity_m = ?c\<rparr>" .
  let ?new0 = "(replicate ?c None)[pos := Some x]"
  from pos small have ps: "pos < 2 ^ 31" "?s - pos < 2 ^ 31" by simp_all
  have sc: "Suc ?s \<le> ?c" by (simp add: max_def)
  from t1 ps have t1': "UninitializedMoveOrCopy T ?b 0 (int pos) ?new0 0 = (Inr (), old, new)"
    by (simp add: to_int_small nd')
  from pos sc have "0 + pos \<le> length ?new0" by simp
  from UninitializedMoveOrCopy_Inr [OF t1' vp this]
  have r1: "length old = length ?b" "length new = ?c"
    "\<forall>i. pos \<le> i \<longrightarrow> old ! i = ?b ! i"
    "\<forall>i<?c. new ! i = (if i < pos then slot_at ?b i else ?new0 ! i)"
    by auto
  from t2 ps have t2': "UninitializedMoveOrCopy T old pos (int (?s - pos)) new (pos + 1) = (Inr (), old', new')"
    by (simp add: to_int_small)
  from pos sc r1(2) have "pos + 1 + (?s - pos) \<le> length new" by simp
  from UninitializedMoveOrCopy_Inr [OF t2' vp this]
  have r2: "length new' = length new"
    "\<forall>i<length new. new' ! i =
       (if pos + 1 \<le> i \<and> i < pos + 1 + (?s - pos) then slot_at old (pos + (i - (pos + 1))) else new ! i)"
    by blast+
  have "new' ! i = (if i < pos then ?b ! i else if i = pos then Some x
                    else if i \<le> ?s then ?b ! (i - 1) else None)" if i: "i < ?c" for i
  proof -
    from r2(2) i r1(2)
    have n': "new' ! i = (if pos + 1 \<le> i \<and> i < pos + 1 + (?s - pos)
        then slot_at old (pos + (i - (pos + 1))) else new ! i)" by simp
    from r1(4) i have n: "new ! i = (if i < pos then slot_at ?b i else ?new0 ! i)" by simp
    show ?thesis
    proof (cases "i < pos")
      case True
      with n n' pos V(1,2) show ?thesis by (simp add: slot_at_def)
    next
      case False
      show ?thesis
      proof (cases "i = pos")
        case True
        with n n' i show ?thesis by simp
      next
        case ne: False
        show ?thesis
        proof (cases "i \<le> ?s")
          case True
          with False ne pos have idx: "pos + (i - (pos + 1)) = i - 1" "pos \<le> i - 1" "i - 1 < ?s"
            by simp_all
          with r1(1,3) V(1,2) have "slot_at old (i - 1) = ?b ! (i - 1)"
            by (simp add: slot_at_def)
          with n' True False ne pos idx(1) show ?thesis by simp
        next
          case False
          with n n' i ne \<open>\<not> i < pos\<close> pos show ?thesis by simp
        qed
      qed
    qed
  qed
  with r1(2) r2(1) show ?thesis by (simp add: v' nd')
qed

lemma uninitialized_move_n_within_one:
  assumes "uninitialized_move_n_within T b from 1 to = (Inr u, b1)" and "value_preserving T"
  shows "\<exists>x r. slot_at b from = Some x \<and> b1 = (b[from := Some r])[to := Some x]"
  using assms
  by (auto simp: uninitialized_move_n_within_def split: option.splits dest: value_preservingD)

lemma EmplaceWithoutReallocation_buffer:
  assumes inv: "vector_inv v" and pos: "pos \<le> size_m v" and vp: "value_preserving T"
    and spare: "size_m v < capacity_m (data_m v)"
    and built: "ctor (buffer_m (data_m v)) = Inr (x, buffer_m (data_m v))"
    and run: "EmplaceWithoutReallocation T pos ctor v = (Inr u, v')"
  shows "size_m v' = size_m v \<and> capacity_m (data_m v') = capacity_m (data_m v)
     \<and> length (buffer_m (data_m v')) = capacity_m (data_m v)
     \<and> (\<forall>i<capacity_m (data_m v). buffer_m (data_m v') ! i =
           (if i < pos then buffer_m (data_m v) ! i
            else if i = pos then Some x
            else if i \<le> size_m v then buffer_m (data_m v) ! (i - 1)
            else None))"
proof (cases "pos = size_m v")
  case True
  note V = vector_inv_slots [OF inv]
  from run True have v': "v' = with_buffer v ((buffer_m (data_m v))[size_m v := Some x])"
    by (simp add: EmplaceWithoutReallocation_def built)
  have "(buffer_m (data_m v))[size_m v := Some x] ! i =
           (if i < pos then buffer_m (data_m v) ! i
            else if i = pos then Some x
            else if i \<le> size_m v then buffer_m (data_m v) ! (i - 1)
            else None)" if "i < capacity_m (data_m v)" for i
    using that True V(1) V(5) [of i] spare by (auto simp: nth_list_update)
  with V(1) show ?thesis by (simp add: v' with_buffer_def)
next
  case False
  let ?b = "buffer_m (data_m v)" and ?s = "size_m v"
  note V = vector_inv_slots [OF inv]
  from False pos have lt: "pos < ?s" by simp
  from run False obtain b1 b2 old y r
    where um: "uninitialized_move_n_within T ?b (?s - 1) 1 ?s = (Inr (), b1)"
      and mb: "move_backward T b1 pos (?s - 1) ?s = (Inr (), b2)"
      and asg: "move_asgn T old x = Some (y, r)"
      and v': "v' = with_buffer v (b2[pos := Some y])"
    by (auto simp: EmplaceWithoutReallocation_def Let_def built
        split: prod.splits sum.splits if_splits option.splits)
  from value_preservingD(4) [OF vp asg] have y: "y = x" .
  from uninitialized_move_n_within_one [OF um vp] obtain x0 r0
    where x0: "slot_at ?b (?s - 1) = Some x0" and b1: "b1 = (?b[?s - 1 := Some r0])[?s := Some x0]"
    by blast
  from x0 lt V(1,2) have last: "?b ! (?s - 1) = Some x0"
    by (auto simp: slot_at_def split: if_splits)
  from mb have loop: "move_backward_loop T b1 (?s - 1) ?s (?s - 1 - pos) = (Inr (), b2)"
    by (simp add: move_backward_def)
  from lt have a: "?s = Suc (?s - 1)" "?s - 1 - pos \<le> ?s - 1" by simp_all
  from lt have p: "?s - 1 - (?s - 1 - pos) = pos" by simp
  from lt V(1,2) have "?s - 1 < length b1" by (simp add: b1)
  from move_backward_loop_spec [OF loop vp a this, unfolded p]
  have b2: "length b2 = length b1"
    "\<forall>i<length b1. i \<noteq> pos \<longrightarrow>
       b2 ! i = (if pos < i \<and> i \<le> ?s - 1 then b1 ! (i - 1) else b1 ! i)"
    by blast+
  have "b2[pos := Some y] ! i =
           (if i < pos then ?b ! i else if i = pos then Some x
            else if i \<le> ?s then ?b ! (i - 1) else None)" if i: "i < capacity_m (data_m v)" for i
  proof (cases "i = pos")
    case True
    with i b2(1) V(1) show ?thesis by (simp add: y b1)
  next
    case ne: False
    from i V(1) have "i < length b1" by (simp add: b1)
    with b2(2) ne have e: "b2 ! i = (if pos < i \<and> i \<le> ?s - 1 then b1 ! (i - 1) else b1 ! i)"
      by blast
    show ?thesis
    proof (cases "i < pos")
      case True
      with e ne lt i V(1) show ?thesis by (simp add: b1)
    next
      case ge: False
      show ?thesis
      proof (cases "i \<le> ?s - 1")
        case True
        with ge ne have "pos < i" "i - 1 < ?s - 1" "i \<le> ?s" by simp_all
        with e True ne ge i V(1) lt show ?thesis by (simp add: b1)
      next
        case gt: False
        show ?thesis
        proof (cases "i = ?s")
          case True
          with e gt ne ge lt last i V(1) show ?thesis by (simp add: b1)
        next
          case False
          with gt lt have "?s < i" by simp
          with V(5) [of i] i have "?b ! i = None" by simp
          with e gt ne ge lt i V(1) \<open>?s < i\<close> show ?thesis by (simp add: b1)
        qed
      qed
    qed
  qed
  with b2(1) V(1) show ?thesis by (simp add: v' with_buffer_def b1)
qed

lemma length_elements: "vector_inv v \<Longrightarrow> length (elements v) = size_m v"
  using vector_inv_slots(1,2) [of v] by (simp add: elements_def)

lemma Emplace_bounded:
  assumes inv: "vector_inv v" and pos: "pos \<le> size_m v" and small: "size_m v < 2 ^ 31"
    and vp: "value_preserving T"
    and built: "ctor (buffer_m (data_m v)) = Inr (x, buffer_m (data_m v))"
    and run: "Emplace T pos ctor v = (Inr r, v')"
  shows "r = pos \<and> size_m v' = Suc (size_m v) \<and> vector_inv v'
     \<and> elements v' = take pos (elements v) @ Some x # drop pos (elements v)"
proof -
  let ?b = "buffer_m (data_m v)" and ?s = "size_m v"
  let ?c = "if ?s = capacity_m (data_m v) then max 1 (2 * ?s) else capacity_m (data_m v)"
  let ?b' = "buffer_m (data_m v')"
  note V = vector_inv_slots [OF inv]
  from run pos obtain v1 where
    path: "(if ?s = capacity_m (data_m v) then EmplaceWithReallocation T pos ctor v
           else EmplaceWithoutReallocation T pos ctor v) = (Inr (), v1)"
    and v': "v' = v1\<lparr>size_m := size_m v1 + 1\<rparr>" and r: "r = pos"
    by (auto simp: Emplace_def Capacity_def RawMemory_Capacity_def Let_def
        split: prod.splits sum.splits if_splits)
  have v1: "size_m v1 = ?s \<and> capacity_m (data_m v1) = ?c \<and> length (buffer_m (data_m v1)) = ?c
     \<and> (\<forall>i<?c. buffer_m (data_m v1) ! i =
           (if i < pos then ?b ! i else if i = pos then Some x
            else if i \<le> ?s then ?b ! (i - 1) else None))"
  proof (cases "?s = capacity_m (data_m v)")
    case True
    with path have "EmplaceWithReallocation T pos ctor v = (Inr (), v1)" by simp
    from EmplaceWithReallocation_buffer [OF inv pos small vp True built this] True show ?thesis by simp
  next
    case False
    with V(2) have spare: "?s < capacity_m (data_m v)" by simp
    from False path have "EmplaceWithoutReallocation T pos ctor v = (Inr (), v1)" by simp
    from EmplaceWithoutReallocation_buffer [OF inv pos vp spare built this] False show ?thesis by simp
  qed
  then have size: "size_m v' = Suc ?s" and cap: "capacity_m (data_m v') = ?c"
    and len: "length ?b' = ?c"
    and slots: "\<forall>i<?c. ?b' ! i =
           (if i < pos then ?b ! i else if i = pos then Some x
            else if i \<le> ?s then ?b ! (i - 1) else None)"
    by (simp_all add: v')
  have room: "Suc ?s \<le> ?c" using V(2) by (auto simp: max_def)
  have live: "(?b' ! i \<noteq> None) = (i < Suc ?s)" if i: "i < ?c" for i
  proof -
    from slots i have e: "?b' ! i = (if i < pos then ?b ! i else if i = pos then Some x
            else if i \<le> ?s then ?b ! (i - 1) else None)" by blast
    show ?thesis
    proof (cases "i < pos")
      case True
      with pos V(3) [of i] e show ?thesis by simp
    next
      case False
      show ?thesis
      proof (cases "i = pos")
        case True
        with e pos show ?thesis by simp
      next
        case ne: False
        show ?thesis
        proof (cases "i \<le> ?s")
          case True
          with False ne V(3) [of "i - 1"] e show ?thesis by simp
        next
          case gt: False
          with False ne e show ?thesis by simp
        qed
      qed
    qed
  qed
  have inv': "vector_inv v'"
    unfolding vector_inv_iff using size cap len room live by simp
  have "elements v' = take pos (elements v) @ Some x # drop pos (elements v)"
  proof (rule nth_equalityI)
    show "length (elements v') = length (take pos (elements v) @ Some x # drop pos (elements v))"
      using size len room pos V(1,2) by (simp add: elements_def)
  next
    fix i assume "i < length (elements v')"
    with size len room have i: "i \<le> ?s" "i < ?c" by (simp_all add: elements_def)
    from pos i V(1,2) have "(take pos (elements v) @ Some x # drop pos (elements v)) ! i
       = (if i < pos then elements v ! i else if i = pos then Some x else elements v ! (i - 1))"
      by (intro nth_insert) (simp_all add: elements_def)
    also have "\<dots> = (if i < pos then ?b ! i else if i = pos then Some x else ?b ! (i - 1))"
      using i pos by (auto simp: elements_def)
    also have "\<dots> = ?b' ! i" using slots i by simp
    finally show "elements v' ! i = (take pos (elements v) @ Some x # drop pos (elements v)) ! i"
      using i size by (simp add: elements_def)
  qed
  with r size inv' show ?thesis by simp
qed

lemma Insert_then_Erase_bounded:
  assumes inv: "vector_inv v" and pos: "pos \<le> size_m v" and small: "size_m v < 2 ^ 31"
    and vp: "value_preserving T"
    and outside: "\<not> moves_an_element a"
    and ins: "Insert T pos a v = (Inr r, v1)"
    and era: "Erase T pos v1 = (Inr r', v2)"
  shows "size_m v2 = size_m v \<and> elements v2 = elements v \<and> vector_inv v2"
proof -
  from ins pos obtain x b where "forward_construct T a (buffer_m (data_m v)) = Inr (x, b)"
    by (cases "forward_construct T a (buffer_m (data_m v))")
       (auto simp: Insert_def Emplace_def EmplaceWithReallocation_def
          EmplaceWithoutReallocation_def Let_def split: if_splits sum.splits)
  with forward_construct_keeps [OF this outside]
  have x: "forward_construct T a (buffer_m (data_m v)) = Inr (x, buffer_m (data_m v))" by simp
  from ins have "Emplace T pos (forward_construct T a) v = (Inr r, v1)" by (simp add: Insert_def)
  from Emplace_bounded [OF inv pos small vp x this]
  have v1: "size_m v1 = Suc (size_m v)" "vector_inv v1"
    "elements v1 = take pos (elements v) @ Some x # drop pos (elements v)"
    by blast+
  from pos v1(1) have p1: "pos < size_m v1" by simp
  from Erase_buffer [OF v1(2) p1 vp era] have "size_m v2 = size_m v1 - 1" by blast
  moreover from Erase_elements [OF v1(2) p1 vp era]
  have "elements v2 = take pos (elements v1) @ drop (Suc pos) (elements v1)" .
  moreover have "take pos (elements v1) @ drop (Suc pos) (elements v1) = elements v"
    using pos length_elements [OF inv] by (simp add: v1(3))
  ultimately show ?thesis using v1(1) Erase_inv [OF v1(2) p1 vp era] by simp
qed

lemma value_construct_loop_spec:
  assumes "value_construct_loop T b first cur n = (Inr u, b')" and "cur + n \<le> length b"
  shows "\<exists>x. (n = 0 \<or> value_ctor T = Some x) \<and> length b' = length b
     \<and> (\<forall>i<length b. b' ! i = (if cur \<le> i \<and> i < cur + n then Some x else b ! i))"
  using assms
proof (induction n arbitrary: b cur)
  case 0
  then show ?case by auto
next
  case (Suc n)
  from Suc.prems(1) obtain x where x: "value_ctor T = Some x"
    and run: "value_construct_loop T (b[cur := Some x]) first (Suc cur) n = (Inr u, b')"
    by (auto split: option.splits)
  from Suc.prems(2) have "Suc cur + n \<le> length (b[cur := Some x])" by simp
  from Suc.IH [OF run this] x
  have "length b' = length b"
    "\<forall>i<length b. b' ! i = (if Suc cur \<le> i \<and> i < Suc cur + n then Some x else b[cur := Some x] ! i)"
    by auto
  with x show ?case by (intro exI [of _ x]) (auto simp: nth_list_update)
qed

lemma PopBack_inv:
  assumes inv: "vector_inv v" and run: "PopBack v = (Inr u, v')"
  shows "vector_inv v' \<and> Suc (size_m v') = size_m v \<and> elements v' = butlast (elements v)
     \<and> capacity_m (data_m v') = capacity_m (data_m v)"
proof -
  let ?b = "buffer_m (data_m v)" and ?s = "size_m v"
  note V = vector_inv_slots [OF inv]
  from run have pos: "0 < ?s"
    and v': "v' = (with_buffer v (destroy_n ?b (?s - 1) 1))\<lparr>size_m := ?s - 1\<rparr>"
    by (auto simp: PopBack_def split: if_splits)
  have slots: "buffer_m (data_m v') ! i = (if i = ?s - 1 then None else ?b ! i)"
    if "i < capacity_m (data_m v)" for i
    using that V(1) by (auto simp: v' with_buffer_def nth_destroy_n)
  have "(buffer_m (data_m v') ! i \<noteq> None) = (i < ?s - 1)" if i: "i < capacity_m (data_m v)" for i
  proof (cases "i < ?s - 1")
    case True
    with slots [OF i] V(3) [of i] show ?thesis by simp
  next
    case False
    show ?thesis
    proof (cases "i = ?s - 1")
      case True
      with slots [OF i] show ?thesis by simp
    next
      case ne: False
      with False pos have "?s \<le> i" by simp
      with slots [OF i] V(5) [of i] i False ne show ?thesis by simp
    qed
  qed
  then have "vector_inv v'"
    unfolding vector_inv_iff using V(1,2) by (simp add: v' with_buffer_def)
  moreover have "elements v' = butlast (elements v)"
  proof (rule nth_equalityI)
    show "length (elements v') = length (butlast (elements v))"
      using V(1,2) by (simp add: elements_def v' with_buffer_def)
  next
    fix i assume "i < length (elements v')"
    with V(1,2) have i: "i < ?s - 1" by (simp add: elements_def v' with_buffer_def)
    with V(2) have "i < capacity_m (data_m v)" by simp
    from slots [OF this] i V(1,2) show "elements v' ! i = butlast (elements v) ! i"
      by (simp add: elements_def nth_butlast v')
  qed
  ultimately show ?thesis using pos by (simp add: v' with_buffer_def)
qed

lemma Vector_sized_inv:
  assumes run: "Vector_sized T n = Inr v"
  shows "vector_inv v \<and> size_m v = n \<and> capacity_m (data_m v) = n
     \<and> (\<exists>x. (n = 0 \<or> value_ctor T = Some x) \<and> elements v = replicate n (Some x))"
proof -
  from run obtain d b where d: "RawMemory_sized T n = Inr d"
    and loop: "uninitialized_value_construct_n T (buffer_m d) 0 n = (Inr (), b)"
    and v: "v = \<lparr>data_m = d\<lparr>buffer_m := b\<rparr>, size_m = n\<rparr>"
    by (auto simp: Vector_sized_def split: sum.splits prod.splits)
  from RawMemory_sized_Inr [OF d] have d': "d = \<lparr>buffer_m = replicate n None, capacity_m = n\<rparr>" .
  from loop have "value_construct_loop T (replicate n None) 0 0 n = (Inr (), b)"
    by (simp add: uninitialized_value_construct_n_def d')
  from value_construct_loop_spec [OF this] obtain x
    where x: "n = 0 \<or> value_ctor T = Some x" and len: "length b = n"
      and slots: "\<forall>i<n. b ! i = Some x"
    by auto
  have b: "b = replicate n (Some x)"
    by (rule nth_equalityI) (use len slots in auto)
  have "vector_inv v" by (simp add: vector_inv_def v d' b list_all_iff)
  with x show ?thesis by (auto simp: v d' b elements_def)
qed

lemma Resize_bounded:
  assumes inv: "vector_inv v" and small: "size_m v < 2 ^ 31" and vp: "value_preserving T"
    and run: "Resize T n v = (Inr u, v')"
  shows "vector_inv v' \<and> size_m v' = n
     \<and> take (min n (size_m v)) (elements v') = take (min n (size_m v)) (elements v)"
proof (cases "size_m v = n")
  case True
  with run inv show ?thesis by (simp add: Resize_def)
next
  case ne: False
  let ?b = "buffer_m (data_m v)" and ?s = "size_m v"
  note V = vector_inv_slots [OF inv]
  show ?thesis
  proof (cases "n < ?s")
    case True
    with run ne have v': "v' = (with_buffer v (destroy_n ?b n (?s - n)))\<lparr>size_m := n\<rparr>"
      by (simp add: Resize_def)
    have slots: "buffer_m (data_m v') ! i = (if n \<le> i \<and> i < ?s then None else ?b ! i)"
      if "i < capacity_m (data_m v)" for i
      using that V(1) True by (auto simp: v' with_buffer_def nth_destroy_n)
    have "(buffer_m (data_m v') ! i \<noteq> None) = (i < n)" if i: "i < capacity_m (data_m v)" for i
      using slots [OF i] V(3) [of i] V(5) [of i] i True by auto
    then have "vector_inv v'"
      unfolding vector_inv_iff using V(1,2) True by (simp add: v' with_buffer_def)
    moreover have "take n (elements v') = take n (elements v)"
    proof (rule nth_equalityI)
      show "length (take n (elements v')) = length (take n (elements v))"
        using V(1,2) True by (simp add: elements_def v' with_buffer_def)
    next
      fix i assume "i < length (take n (elements v'))"
      with V(1,2) True have i: "i < n" by (simp add: elements_def v' with_buffer_def)
      with V(2) True have "i < capacity_m (data_m v)" by simp
      from slots [OF this] i True show "take n (elements v') ! i = take n (elements v) ! i"
        by (simp add: elements_def v')
    qed
    ultimately show ?thesis using True by (simp add: v' min_def)
  next
    case False
    with ne have gt: "?s < n" by simp
    from run ne False obtain v1 b where res: "Reserve T n v = (Inr (), v1)"
      and loop: "uninitialized_value_construct_n T (buffer_m (data_m v1)) (size_m v1) (n - size_m v1)
                  = (Inr (), b)"
      and v': "v' = (with_buffer v1 b)\<lparr>size_m := n\<rparr>"
      by (auto simp: Resize_def split: prod.splits sum.splits)
    from Reserve_bounded [OF inv small vp res]
    have v1: "size_m v1 = ?s" "elements v1 = elements v" "vector_inv v1"
      "capacity_m (data_m v1) = max n (capacity_m (data_m v))"
      by blast+
    note W = vector_inv_slots [OF v1(3)]
    let ?b1 = "buffer_m (data_m v1)"
    from loop have l: "value_construct_loop T ?b1 ?s ?s (n - ?s) = (Inr (), b)"
      by (simp add: uninitialized_value_construct_n_def v1(1))
    from gt W(1) v1(4) have "?s + (n - ?s) \<le> length ?b1" by simp
    from value_construct_loop_spec [OF l this] gt obtain x
      where len: "length b = length ?b1"
        and slots: "\<forall>i<length ?b1. b ! i = (if ?s \<le> i \<and> i < n then Some x else ?b1 ! i)"
      by auto
    have "(b ! i \<noteq> None) = (i < n)" if i: "i < capacity_m (data_m v1)" for i
      using slots i W(1) W(3) [of i] W(5) [of i] v1(1) gt by auto
    then have "vector_inv v'"
      unfolding vector_inv_iff using len W(1) v1(4) by (simp add: v' with_buffer_def)
    moreover have "take ?s (elements v') = take ?s (elements v)"
    proof -
      have "take ?s b = take ?s ?b1"
      proof (rule nth_equalityI)
        show "length (take ?s b) = length (take ?s ?b1)" using len by simp
      next
        fix i assume "i < length (take ?s b)"
        with slots len show "take ?s b ! i = take ?s ?b1 ! i" by simp
      qed
      with gt v1(1,2) show ?thesis
        by (simp add: elements_def v' with_buffer_def min_def)
    qed
    ultimately show ?thesis using gt by (simp add: v' min_def)
  qed
qed

text \<open>Up to \<open>2 ^ 31\<close> calls of \<^verbatim>\<open>PushBack\<close> on a default-constructed vector, with
  arguments outside the vector, give the pushed values back, in order.\<close>

lemma Vector_index_vector_of:
  "i < length xs \<Longrightarrow> Vector_index (vector_of xs k) i = Inr (xs ! i)"
  by (simp add: Vector_index_def slot_at_def nth_append)

lemma PushBack_all_below_limit:
  assumes vp: "value_preserving T" and nt: "never_throws T"
    and mem: "\<forall>n\<le>2 ^ 32. can_allocate T n"
    and bound: "length as \<le> 2 ^ 31"
    and as: "map outside_value as = map Some ys"
  shows "\<exists>v. PushBack_all T as Vector_default = (Inr (), v)
     \<and> Size v = length as
     \<and> (\<forall>i<length as. Vector_index v i = Inr (ys ! i))"
proof -
  from as have len: "length ys = length as" by (metis length_map)
  from bound have b: "length ([] :: 'a list) + length as \<le> 2 ^ 31" by simp
  have c: "doubled_capacity (length ([] :: 'a list)) 0" by (simp add: doubled_capacity_def)
  from PushBack_all_bounded [OF vp nt mem b c as] obtain k
    where run: "PushBack_all T as (vector_of [] 0) = (Inr (), vector_of ([] @ ys) k)"
    by blast
  let ?v = "vector_of ys k"
  from run have "PushBack_all T as Vector_default = (Inr (), ?v)"
    by (simp add: Vector_default_vector_of)
  moreover have "Size ?v = length as" by (simp add: Size_def len)
  moreover have "\<forall>i<length as. Vector_index ?v i = Inr (ys ! i)"
    by (simp add: Vector_index_vector_of len)
  ultimately show ?thesis by blast
qed

end
